theory Spec2Isabelle
  imports Main "HOL-Library.Word" "HOL-Library.Char_ord" "HOL-Library.List_Lexorder"
begin

section \<open>The columnar layer used by the sorter\<close>

text \<open>
  Modelled from the spec: the classes Column and Chunk (column/column.h, column/chunk.h)
  are used by \<open>chunks_sorter.h\<close> but are not part of the sources. The spec treats a
  column as a container of one SQL value per row with \<open>get(i)\<close> giving a value or null,
  and a chunk as a sequence of columns of equal row count. A column is therefore a list
  of optional values (\<open>None\<close> is SQL NULL) and a chunk is the list of its columns.
\<close>

type_synonym 'a Column = "'a option list"

type_synonym 'a Chunk = "'a Column list"

text \<open>
  Modelled from the spec: \<open>Chunk::num_rows\<close>. All columns of a chunk have the same row
  count, so the row count is that of the first column, and 0 for a chunk without columns.
\<close>

definition num_rows :: "'a Chunk \<Rightarrow> nat" where
  "num_rows c = (case c of [] \<Rightarrow> 0 | col # _ \<Rightarrow> length col)"

text \<open>
  Modelled from the spec: \<open>Column::compare_at(left, right, rhs, nan_direction_hint)\<close>,
  the three-way comparison of row \<open>left\<close> of this column with row \<open>right\<close> of \<open>rhs\<close>.
  Two non-null values compare by the order of the value type, giving -1, 0 or 1. The last
  argument places nulls: the header documents it as "1 for greatest, -1 for least", so a
  null against a non-null value compares as the hint itself, a non-null value against a
  null as its negation, and two nulls are equal.
\<close>

definition column_compare_at :: "('a::ord) Column \<Rightarrow> nat \<Rightarrow> nat \<Rightarrow> 'a Column \<Rightarrow> int \<Rightarrow> int" where
  "column_compare_at lhs left right rhs nan_direction_hint =
     (case lhs ! left of
        None \<Rightarrow> (case rhs ! right of None \<Rightarrow> 0 | Some b \<Rightarrow> nan_direction_hint)
      | Some a \<Rightarrow>
          (case rhs ! right of
             None \<Rightarrow> - nan_direction_hint
           | Some b \<Rightarrow> if a < b then - 1 else if b < a then 1 else 0))"

section \<open>DataSegment\<close>

text \<open>
  \<open>struct DataSegment\<close>: a chunk together with the materialised values of its order-by
  expressions. Row indexes (\<open>size_t\<close>, \<open>uint64_t\<close>) are natural numbers; the C++ \<open>int\<close>
  results of comparisons and the \<open>int8_t\<close> entries of the result arrays are integers
  (they only ever hold a three-way result, a flag, or a product of the two).
\<close>

record 'a DataSegment =
  chunk :: "'a Chunk"
  order_by_columns :: "'a Column list"

text \<open>
  \<open>DataSegment::init\<close>: the chunk is replaced, and every order-by expression is evaluated
  once on it and pushed onto \<open>order_by_columns\<close>. The vector is not cleared first, so
  \<open>init\<close> on a segment that already has order-by columns adds the new ones behind them.
  An expression is modelled by its evaluation function from chunks to columns.
\<close>

definition DataSegment_init ::
  "'a DataSegment \<Rightarrow> ('a Chunk \<Rightarrow> 'a Column) list \<Rightarrow> 'a Chunk \<Rightarrow> 'a DataSegment" where
  "DataSegment_init self sort_exprs cnk =
     self\<lparr>chunk := cnk,
          order_by_columns := order_by_columns self @ map (\<lambda>expr_ctx. expr_ctx cnk) sort_exprs\<rparr>"

text \<open>
  The two constructors: \<open>DataSegment()\<close> holds an empty chunk and no order-by column, and
  \<open>DataSegment(sort_exprs, cnk)\<close> calls \<open>init\<close> on a segment whose \<open>order_by_columns\<close> is
  still empty.
\<close>

definition DataSegment_empty :: "'a DataSegment" where
  "DataSegment_empty = \<lparr>chunk = [], order_by_columns = []\<rparr>"

definition DataSegment_new :: "('a Chunk \<Rightarrow> 'a Column) list \<Rightarrow> 'a Chunk \<Rightarrow> 'a DataSegment" where
  "DataSegment_new sort_exprs cnk = DataSegment_init DataSegment_empty sort_exprs cnk"

text \<open>
  Modelled from the spec: a \<open>SlotRef\<close> expression (exprs/slot_ref.h is not part of the
  sources), as the test fixture uses it: it evaluates to the column of the chunk at its
  slot index.
\<close>

definition slot_ref :: "nat \<Rightarrow> 'a Chunk \<Rightarrow> 'a Column" where
  "slot_ref slot_id cnk = cnk ! slot_id"

subsection \<open>The scalar comparator\<close>

text \<open>
  \<open>DataSegment::compare_at\<close>: the loop over \<open>col_index\<close>, written as a recursion on the
  column index; \<open>col_number\<close> is the number of order-by columns of the segment the method
  is called on. The first column whose comparison \<open>c\<close> is not 0 ends the loop with
  \<open>c * sort_order_flag[col_index]\<close>.
\<close>

function compare_at_from ::
  "('a::ord) DataSegment \<Rightarrow> nat \<Rightarrow> 'a DataSegment \<Rightarrow> nat \<Rightarrow> int list \<Rightarrow> int list \<Rightarrow> nat \<Rightarrow> int" where
  "compare_at_from seg index_in_chunk other index_in_other_chunk sort_order_flag null_first_flag col_index =
     (if col_index < length (order_by_columns seg) then
        (let left_col = order_by_columns seg ! col_index;
             right_col = order_by_columns other ! col_index;
             c = column_compare_at left_col index_in_chunk index_in_other_chunk right_col
                   (null_first_flag ! col_index)
         in if c \<noteq> 0 then c * sort_order_flag ! col_index
            else compare_at_from seg index_in_chunk other index_in_other_chunk
                   sort_order_flag null_first_flag (col_index + 1))
      else 0)"
  by pat_completeness auto
termination
  by (relation "measure (\<lambda>(seg, i, other, j, sof, nff, k). length (order_by_columns seg) - k)") auto

definition compare_at ::
  "('a::ord) DataSegment \<Rightarrow> nat \<Rightarrow> 'a DataSegment \<Rightarrow> nat \<Rightarrow> int list \<Rightarrow> int list \<Rightarrow> int" where
  "compare_at seg index_in_chunk other index_in_other_chunk sort_order_flag null_first_flag =
     compare_at_from seg index_in_chunk other index_in_other_chunk sort_order_flag null_first_flag 0"

text \<open>
  The raw comparison of two rows on the order-by key \<open>k\<close>: what \<open>compare_at\<close> computes
  into \<open>c\<close> for \<open>col_index = k\<close>.
\<close>

definition key_compare ::
  "('a::ord) DataSegment \<Rightarrow> nat \<Rightarrow> 'a DataSegment \<Rightarrow> nat \<Rightarrow> int list \<Rightarrow> nat \<Rightarrow> int" where
  "key_compare seg i other j null_first_flag k =
     column_compare_at (order_by_columns seg ! k) i j (order_by_columns other ! k) (null_first_flag ! k)"

text \<open>
  A segment is well formed when every order-by column has one value per row of the chunk,
  as \<open>init\<close> guarantees for expressions evaluated on the chunk.
\<close>

definition segment_ok :: "'a DataSegment \<Rightarrow> bool" where
  "segment_ok seg = list_all (\<lambda>col. length col = num_rows (chunk seg)) (order_by_columns seg)"

subsection \<open>The bulk comparison primitives\<close>

text \<open>
  \<open>compare_between_rows<reversed>\<close>. The vector \<open>rows_to_compare\<close> is compacted in place:
  \<open>indexes\<close> is its storage, \<open>next_index\<close> the write position, and the rows that compare
  equal are written back at \<open>next_index\<close> while the loop still reads the storage at \<open>i\<close>.
  One iteration of the loop is one step on the triple of the storage, the write position
  and \<open>compare_results\<close>; the final \<open>resize\<close> keeps the first \<open>next_index\<close> entries.
\<close>

definition compare_between_rows_step ::
  "bool \<Rightarrow> ('a::ord) Column \<Rightarrow> 'a Column \<Rightarrow> nat \<Rightarrow> int \<Rightarrow> nat
     \<Rightarrow> nat list \<times> nat \<times> int list \<Rightarrow> nat list \<times> nat \<times> int list" where
  "compare_between_rows_step reversed incoming_column base_column number_of_row_to_compare
       null_first_flag i st =
     (case st of (indexes, next_index, compare_results) \<Rightarrow>
        (let row = indexes ! i;
             res = column_compare_at incoming_column row number_of_row_to_compare base_column
                     null_first_flag;
             st1 = (if res < 0 then (indexes, next_index, compare_results[row := - 1])
                    else if res > 0 then (indexes, next_index, compare_results[row := 1])
                    else (indexes[next_index := row], next_index + 1, compare_results[row := 0]))
         in (if reversed
             then (case st1 of (indexes1, next_index1, compare_results1) \<Rightarrow>
                     (indexes1, next_index1, compare_results1[row := - (compare_results1 ! row)]))
             else st1)))"

definition compare_between_rows ::
  "bool \<Rightarrow> ('a::ord) Column \<Rightarrow> 'a Column \<Rightarrow> nat \<Rightarrow> nat list \<Rightarrow> int list \<Rightarrow> int
     \<Rightarrow> nat list \<times> int list" where
  "compare_between_rows reversed incoming_column base_column number_of_row_to_compare
       rows_to_compare compare_results null_first_flag =
     (let num_indexes = length rows_to_compare
      in (case fold (compare_between_rows_step reversed incoming_column base_column
                       number_of_row_to_compare null_first_flag)
                 [0..<num_indexes] (rows_to_compare, 0, compare_results) of
            (indexes, next_index, compare_results') \<Rightarrow> (take next_index indexes, compare_results')))"

text \<open>\<open>compare_column_with_one_row\<close>: a descending key selects the reversed instance.\<close>

definition compare_column_with_one_row ::
  "('a::ord) Column \<Rightarrow> 'a Column \<Rightarrow> nat \<Rightarrow> nat list \<Rightarrow> int list \<Rightarrow> int \<Rightarrow> int
     \<Rightarrow> nat list \<times> int list" where
  "compare_column_with_one_row incoming_column base_column number_of_row_to_compare
       rows_to_compare compare_result sort_order_flag null_first_flag =
     (if sort_order_flag < 0
      then compare_between_rows True incoming_column base_column number_of_row_to_compare
             rows_to_compare compare_result null_first_flag
      else compare_between_rows False incoming_column base_column number_of_row_to_compare
             rows_to_compare compare_result null_first_flag)"

text \<open>
  \<open>get_compare_results\<close>. The inner loop over the order-by columns \<open>j\<close> of one segment,
  with its \<open>break\<close> once no row is left to compare, is \<open>compare_columns_from\<close>; the outer
  loop over the segments updates entry \<open>i\<close> of both arrays.
\<close>

function compare_columns_from ::
  "nat \<Rightarrow> ('a::ord) Column list \<Rightarrow> 'a DataSegment \<Rightarrow> int list \<Rightarrow> int list \<Rightarrow> nat
     \<Rightarrow> nat list \<times> int list \<Rightarrow> nat list \<times> int list" where
  "compare_columns_from row_to_sort order_by_cols segment sort_order_flags null_first_flags j st =
     (if j < length order_by_cols then
        (case st of (rows_to_compare, compare_results) \<Rightarrow>
           (case compare_column_with_one_row (order_by_columns segment ! j) (order_by_cols ! j)
                   row_to_sort rows_to_compare compare_results
                   (sort_order_flags ! j) (null_first_flags ! j) of
              (rows_to_compare', compare_results') \<Rightarrow>
                if rows_to_compare' = [] then (rows_to_compare', compare_results')
                else compare_columns_from row_to_sort order_by_cols segment sort_order_flags
                       null_first_flags (j + 1) (rows_to_compare', compare_results')))
      else st)"
  by pat_completeness auto
termination
  by (relation "measure (\<lambda>(r, cols, seg, sof, nff, j, st). length cols - j)") auto

definition get_compare_results ::
  "nat \<Rightarrow> ('a::ord) Column list \<Rightarrow> nat list list \<Rightarrow> int list list \<Rightarrow> 'a DataSegment list
     \<Rightarrow> int list \<Rightarrow> int list \<Rightarrow> nat list list \<times> int list list" where
  "get_compare_results row_to_sort order_by_cols rows_to_compare_array compare_results_array
       data_segments sort_order_flags null_first_flags =
     (let dats_segment_size = length data_segments
      in fold (\<lambda>i (rows_array, results_array).
                 (case compare_columns_from row_to_sort order_by_cols (data_segments ! i)
                         sort_order_flags null_first_flags 0 (rows_array ! i, results_array ! i) of
                    (rows_to_compare, compare_results) \<Rightarrow>
                      (rows_array[i := rows_to_compare], results_array[i := compare_results])))
           [0..<dats_segment_size] (rows_to_compare_array, compare_results_array))"

subsection \<open>The top-N filter\<close>

text \<open>
  Modelled from the spec: \<open>Status\<close> (common/status.h is not part of the sources). A
  status is OK or one of the failures of the spec's error taxonomy (memory limit exceeded,
  upstream error, invalid configuration, cancellation); \<open>RETURN_IF_ERROR\<close> returns a
  status that is not OK to the caller.
\<close>

datatype Status = OK | MemLimitExceeded | UpstreamError | InvalidConfiguration | Cancelled

definition ok :: "Status \<Rightarrow> bool" where
  "ok st = (st = OK)"

definition BEFORE_LAST_RESULT :: "8 word" where
  "BEFORE_LAST_RESULT = 2"

definition IN_LAST_RESULT :: "8 word" where
  "IN_LAST_RESULT = 1"

text \<open>
  \<open>std::vector::resize(n)\<close>: the first \<open>n\<close> elements are kept, and a vector that grows is
  filled with value-initialised elements \<open>d\<close>.
\<close>

definition vector_resize :: "nat \<Rightarrow> 'b \<Rightarrow> 'b list \<Rightarrow> 'b list" where
  "vector_resize n d v = take n v @ replicate (n - length v) d"

text \<open>\<open>number_of_rows_to_sort - 1\<close> on \<open>size_t\<close>: 0 wraps to the largest value.\<close>

definition size_t_pred :: "nat \<Rightarrow> nat" where
  "size_t_pred n = (if n = 0 then 2 ^ 64 - 1 else n - 1)"

text \<open>
  The first block of \<open>get_filter_array\<close> resizes \<open>rows_to_compare_array[i]\<close> to the row
  count and stores \<open>j\<close> at index \<open>j\<close>.
\<close>

definition all_rows :: "nat \<Rightarrow> nat list" where
  "all_rows rows = fold (\<lambda>j v. v[j := j]) [0..<rows] (vector_resize rows 0 [])"

text \<open>
  The branch for \<open>number_of_rows_to_sort == 1\<close>: every row is marked, and the two
  \<open>uint32_t\<close> counters are incremented with wrap-around.
\<close>

definition mark_all_rows ::
  "int list \<Rightarrow> nat \<Rightarrow> 8 word list \<times> 32 word \<times> 32 word \<Rightarrow> 8 word list \<times> 32 word \<times> 32 word" where
  "mark_all_rows compare_results rows st =
     fold (\<lambda>j (filter_i, least_num, middle_num).
             if compare_results ! j < 0
             then (filter_i[j := BEFORE_LAST_RESULT], least_num + 1, middle_num)
             else (filter_i[j := IN_LAST_RESULT], least_num, middle_num + 1))
       [0..<rows] st"

definition mark_all_segments ::
  "'a DataSegment list \<Rightarrow> int list list \<Rightarrow> 8 word list list
     \<Rightarrow> 8 word list list \<times> 32 word \<times> 32 word" where
  "mark_all_segments data_segments compare_results_array filter_array =
     (let dats_segment_size = length data_segments
      in fold (\<lambda>i (filter_array, least_num, middle_num).
                 (let rows = num_rows (chunk (data_segments ! i))
                  in (case mark_all_rows (compare_results_array ! i) rows
                            (vector_resize rows 0 (filter_array ! i), least_num, middle_num) of
                        (filter_i, least_num', middle_num') \<Rightarrow>
                          (filter_array[i := filter_i], least_num', middle_num'))))
           [0..<dats_segment_size] (vector_resize dats_segment_size [] filter_array, 0, 0))"

text \<open>
  The branch for more than one row to sort, first part: the rows whose first comparison
  is negative are marked \<open>IN_LAST_RESULT\<close> and counted in \<open>middle_num\<close>;
  \<open>first_size_array[i]\<close> is the difference, on \<open>size_t\<close>, of the counter after and
  before segment \<open>i\<close>.
\<close>

definition mark_in_rows ::
  "int list \<Rightarrow> nat \<Rightarrow> 8 word list \<times> 32 word \<Rightarrow> 8 word list \<times> 32 word" where
  "mark_in_rows compare_results rows st =
     fold (\<lambda>j (filter_i, middle_num).
             if compare_results ! j < 0
             then (filter_i[j := IN_LAST_RESULT], middle_num + 1)
             else (filter_i, middle_num))
       [0..<rows] st"

definition mark_in_segments ::
  "'a DataSegment list \<Rightarrow> int list list \<Rightarrow> 8 word list list
     \<Rightarrow> 8 word list list \<times> 32 word \<times> 64 word list" where
  "mark_in_segments data_segments compare_results_array filter_array =
     (let dats_segment_size = length data_segments
      in fold (\<lambda>i (filter_array, middle_num, first_size_array).
                 (let rows = num_rows (chunk (data_segments ! i));
                      local_first_size = (ucast middle_num :: 64 word)
                  in (case mark_in_rows (compare_results_array ! i) rows
                            (vector_resize rows 0 (filter_array ! i), middle_num) of
                        (filter_i, middle_num') \<Rightarrow>
                          (filter_array[i := filter_i], middle_num',
                           first_size_array[i := ucast middle_num' - local_first_size]))))
           [0..<dats_segment_size]
           (vector_resize dats_segment_size [] filter_array, 0, vector_resize dats_segment_size 0 []))"

text \<open>
  Second part: \<open>rows_to_compare_array[i]\<close> is resized to \<open>first_size_array[i]\<close> and filled,
  at \<open>first_index\<close>, with the rows whose first comparison is negative; every entry of
  \<open>compare_results_array[i]\<close> is reset to 0 after it has been read.
\<close>

definition collect_rows ::
  "nat \<Rightarrow> nat list \<times> nat \<times> int list \<Rightarrow> nat list \<times> nat \<times> int list" where
  "collect_rows rows st =
     fold (\<lambda>j (rows_to_compare, first_index, compare_results).
             (if compare_results ! j < 0
              then (rows_to_compare[first_index := j], first_index + 1, compare_results[j := 0])
              else (rows_to_compare, first_index, compare_results[j := 0])))
       [0..<rows] st"

definition collect_segments ::
  "'a DataSegment list \<Rightarrow> int list list \<Rightarrow> 64 word list \<Rightarrow> nat list list \<times> int list list" where
  "collect_segments data_segments compare_results_array first_size_array =
     (let dats_segment_size = length data_segments
      in fold (\<lambda>i (rows_to_compare_array, compare_results_array).
                 (let rows = num_rows (chunk (data_segments ! i))
                  in (case collect_rows rows
                            (vector_resize (unat (first_size_array ! i)) 0 (rows_to_compare_array ! i),
                             0, compare_results_array ! i) of
                        (rows_to_compare, first_index, compare_results) \<Rightarrow>
                          (rows_to_compare_array[i := rows_to_compare],
                           compare_results_array[i := compare_results]))))
           [0..<dats_segment_size] (vector_resize dats_segment_size [] [], compare_results_array))"

text \<open>
  Third part: after the second comparison the rows with a negative result are marked
  \<open>BEFORE_LAST_RESULT\<close> and counted in \<open>least_num\<close>.
\<close>

definition mark_before_rows ::
  "int list \<Rightarrow> nat \<Rightarrow> 8 word list \<times> 32 word \<Rightarrow> 8 word list \<times> 32 word" where
  "mark_before_rows compare_results rows st =
     fold (\<lambda>j (filter_i, least_num).
             if compare_results ! j < 0
             then (filter_i[j := BEFORE_LAST_RESULT], least_num + 1)
             else (filter_i, least_num))
       [0..<rows] st"

definition mark_before_segments ::
  "'a DataSegment list \<Rightarrow> int list list \<Rightarrow> 8 word list list \<Rightarrow> 8 word list list \<times> 32 word" where
  "mark_before_segments data_segments compare_results_array filter_array =
     (let dats_segment_size = length data_segments
      in fold (\<lambda>i (filter_array, least_num).
                 (let rows = num_rows (chunk (data_segments ! i))
                  in (case mark_before_rows (compare_results_array ! i) rows
                            (filter_array ! i, least_num) of
                        (filter_i, least_num') \<Rightarrow> (filter_array[i := filter_i], least_num'))))
           [0..<dats_segment_size] (filter_array, 0))"

text \<open>
  What \<open>get_filter_array\<close> leaves behind: the returned status and the three reference
  parameters \<open>filter_array\<close>, \<open>least_num\<close> and \<open>middle_num\<close>. In addition the model
  keeps two logs that are not values of the program and only make its calls observable:
  \<open>compare_passes\<close> has one entry per call of \<open>get_compare_results\<close> (the row compared
  against and the candidate rows per segment handed to the call), and \<open>memory_checks\<close> one
  entry per call of \<open>consume_and_check_memory_limit\<close> (the byte count and the status it
  returned).
\<close>

record FilterResult =
  ret_status :: Status
  out_filter_array :: "8 word list list"
  out_least_num :: "32 word"
  out_middle_num :: "32 word"
  compare_passes :: "(nat \<times> nat list list) list"
  memory_checks :: "(64 word \<times> Status) list"

text \<open>
  \<open>DataSegment::get_filter_array\<close>, called on the segment \<open>self\<close>. The memory callback
  takes a \<open>size_t\<close> byte count; \<open>sizeof(size_t)\<close> and \<open>sizeof(uint64_t)\<close> are 8. When the
  callback fails, the reference parameters keep what has been written so far.
\<close>

definition get_filter_array ::
  "('a::ord) DataSegment \<Rightarrow> 'a DataSegment list \<Rightarrow> nat \<Rightarrow> 8 word list list \<Rightarrow> int list \<Rightarrow> int list
     \<Rightarrow> 32 word \<Rightarrow> 32 word \<Rightarrow> (64 word \<Rightarrow> Status) \<Rightarrow> FilterResult" where
  "get_filter_array self data_segments number_of_rows_to_sort filter_array sort_order_flags
       null_first_flags least_num middle_num consume_and_check_memory_limit =
     (let dats_segment_size = length data_segments;
          compare_results_array0 =
            map (\<lambda>seg. vector_resize (num_rows (chunk seg)) 0 []) data_segments;
          rows_to_compare_array0 = map (\<lambda>seg. all_rows (num_rows (chunk seg))) data_segments;
          first_pass = (size_t_pred number_of_rows_to_sort, rows_to_compare_array0)
      in (case get_compare_results (size_t_pred number_of_rows_to_sort) (order_by_columns self)
                 rows_to_compare_array0 compare_results_array0 data_segments
                 sort_order_flags null_first_flags of
            (rows_to_compare_array1, compare_results_array1) \<Rightarrow>
              if number_of_rows_to_sort = 1 then
                (let st = consume_and_check_memory_limit 0
                 in if \<not> ok st then
                      \<lparr>ret_status = st, out_filter_array = filter_array, out_least_num = least_num,
                       out_middle_num = middle_num, compare_passes = [first_pass],
                       memory_checks = [(0, st)]\<rparr>
                    else
                      (case mark_all_segments data_segments compare_results_array1 filter_array of
                         (filter_array', least_num', middle_num') \<Rightarrow>
                           \<lparr>ret_status = OK, out_filter_array = filter_array',
                            out_least_num = least_num', out_middle_num = middle_num',
                            compare_passes = [first_pass], memory_checks = [(0, st)]\<rparr>))
              else
                (case mark_in_segments data_segments compare_results_array1 filter_array of
                   (filter_array1, middle_num1, first_size_array) \<Rightarrow>
                     (let bytes = of_nat dats_segment_size * 8 + ucast middle_num1 * 8;
                          st = consume_and_check_memory_limit bytes
                      in if \<not> ok st then
                           \<lparr>ret_status = st, out_filter_array = filter_array1,
                            out_least_num = least_num, out_middle_num = middle_num1,
                            compare_passes = [first_pass], memory_checks = [(bytes, st)]\<rparr>
                         else
                           (case collect_segments data_segments compare_results_array1
                                   first_size_array of
                              (rows_to_compare_array2, compare_results_array2) \<Rightarrow>
                                (case get_compare_results 0 (order_by_columns self)
                                        rows_to_compare_array2 compare_results_array2
                                        data_segments sort_order_flags null_first_flags of
                                   (rows_to_compare_array3, compare_results_array3) \<Rightarrow>
                                     (case mark_before_segments data_segments
                                             compare_results_array3 filter_array1 of
                                        (filter_array2, least_num2) \<Rightarrow>
                                          \<lparr>ret_status = OK, out_filter_array = filter_array2,
                                           out_least_num = least_num2,
                                           out_middle_num = middle_num1 - least_num2,
                                           compare_passes =
                                             [first_pass, (0, rows_to_compare_array2)],
                                           memory_checks = [(bytes, st)]\<rparr>)))))))"

section \<open>ChunksSorter and SortedChunksMerger\<close>

text \<open>
  Modelled from the spec: the constructor of \<open>ChunksSorter\<close>, declared in
  \<open>chunks_sorter.h\<close> and defined in \<open>chunks_sorter.cpp\<close>, which is not part of the
  sources. It turns the order specification, one \<open>is_asc\<close> and one \<open>is_null_first\<close> per
  key, into the flag vectors. The header documents \<open>is_null_first\<close> as "NULL values
  should at the head or tail", \<open>_sort_order_flag\<close> as "1 for ascending, -1 for descending"
  and \<open>_null_first_flag\<close> as "1 for greatest, -1 for least", and the spec asks that nulls
  of a nulls-first key sort before every non-null value in both directions. Nulls at the
  head are the least values of an ascending key and the greatest values of a descending
  key, because \<open>compare_at\<close> multiplies every raw result by the direction flag.
\<close>

definition ChunksSorter_sort_order_flag :: "bool list \<Rightarrow> int list" where
  "ChunksSorter_sort_order_flag is_asc = map (\<lambda>asc. if asc then 1 else - 1) is_asc"

definition ChunksSorter_null_first_flag :: "bool list \<Rightarrow> bool list \<Rightarrow> int list" where
  "ChunksSorter_null_first_flag is_asc is_null_first =
     map (\<lambda>(asc, null_first).
            if asc then (if null_first then - 1 else 1) else (if null_first then 1 else - 1))
       (zip is_asc is_null_first)"

text \<open>
  Modelled from the spec: \<open>SortedChunksMerger\<close> (runtime/vectorized/sorted_chunks_merger.h
  and its implementation are not part of the sources; only its test is). The merger keeps,
  per pull-source, one cursor: the current batch as a \<open>DataSegment\<close>, the position of its
  first unconsumed row, the source, and whether the cursor is permanently exhausted. A
  pull-source is the finite sequence of batches it still has to supply; the end of the
  sequence is end-of-stream. A source that returns an error is not modelled.
\<close>

record 'a ChunkCursor =
  cur_segment :: "'a DataSegment"
  cur_pos :: nat
  cur_source :: "'a Chunk list"
  cur_exhausted :: bool

record 'a SortedChunksMerger =
  merger_cursors :: "'a ChunkCursor list"
  merger_sort_exprs :: "('a Chunk \<Rightarrow> 'a Column) list"
  merger_sort_order_flag :: "int list"
  merger_null_first_flag :: "int list"
  merger_batch_size :: nat

text \<open>
  Modelled from the spec: pulling a source gives the next batch or end-of-stream, and a
  source that has signalled end-of-stream keeps doing so.
\<close>

definition pull_next :: "'a Chunk list \<Rightarrow> 'a Chunk option \<times> 'a Chunk list" where
  "pull_next src = (case src of [] \<Rightarrow> (None, []) | batch # rest \<Rightarrow> (Some batch, rest))"

text \<open>
  Modelled from the spec: "when a segment is exhausted, pull its source for the next batch;
  if the source returns empty, mark the segment permanently exhausted". The source returns
  empty when it signals end-of-stream. A batch it supplies replaces the segment with the
  cursor on its first row; a batch without rows is a segment that is exhausted at once,
  so the source is pulled again. The recursion ends because every pull shortens the
  sequence the source still has to supply.
\<close>

function refill :: "('a Chunk \<Rightarrow> 'a Column) list \<Rightarrow> 'a ChunkCursor \<Rightarrow> 'a ChunkCursor" where
  "refill sort_exprs c =
     (case pull_next (cur_source c) of
        (None, rest) \<Rightarrow> c\<lparr>cur_source := rest, cur_exhausted := True\<rparr>
      | (Some batch, rest) \<Rightarrow>
          (let c1 = c\<lparr>cur_segment := DataSegment_new sort_exprs batch, cur_pos := 0,
                      cur_source := rest\<rparr>
           in if cur_pos c1 < num_rows (chunk (cur_segment c1)) then c1
              else refill sort_exprs c1))"
  by pat_completeness auto
termination
  by (relation "measure (\<lambda>(sort_exprs, c). length (cur_source c))")
    (auto simp: pull_next_def split: list.splits)

text \<open>
  Modelled from the spec: \<open>init(sources, orderSpec)\<close> "fails if sources is empty or
  orderSpec is empty" and binds the sources; the error is InvalidConfiguration, which the
  spec also asks for a "mismatched column/key-count", detected at \<open>init\<close>: the order
  specification is passed as the key expressions with one \<open>is_asc\<close> and one
  \<open>is_null_first\<close> per key, as in the test, and the three must have the same length.
  Every cursor starts on the first row its source supplies. The flags are derived from the
  order specification as in \<open>ChunksSorter\<close>, and the batch-size threshold of the output
  is \<open>config::vector_chunk_size\<close> in the test.
\<close>

definition SortedChunksMerger_init ::
  "'a Chunk list list \<Rightarrow> ('a Chunk \<Rightarrow> 'a Column) list \<Rightarrow> bool list \<Rightarrow> bool list \<Rightarrow> nat
     \<Rightarrow> Status + 'a SortedChunksMerger" where
  "SortedChunksMerger_init sources sort_exprs is_asc is_null_first batch_size =
     (if sources = [] \<or> sort_exprs = []
         \<or> length is_asc \<noteq> length sort_exprs \<or> length is_null_first \<noteq> length sort_exprs
      then Inl InvalidConfiguration
      else Inr \<lparr>merger_cursors =
                  map (\<lambda>src. refill sort_exprs
                         \<lparr>cur_segment = DataSegment_empty, cur_pos = 0,
                          cur_source = src, cur_exhausted = False\<rparr>) sources,
                merger_sort_exprs = sort_exprs,
                merger_sort_order_flag = ChunksSorter_sort_order_flag is_asc,
                merger_null_first_flag = ChunksSorter_null_first_flag is_asc is_null_first,
                merger_batch_size = batch_size\<rparr>)"

text \<open>
  Modelled from the spec: "select, across all non-exhausted segments, the row with the
  smallest key under RowComparator (ties broken by source index)". The comparator is
  \<open>DataSegment::compare_at\<close>; a later source replaces the best one only when its row is
  strictly smaller. With a single non-exhausted segment no comparison is made, which is
  the spec's special case of one remaining source.
\<close>

definition select_min :: "('a::ord) ChunkCursor list \<Rightarrow> int list \<Rightarrow> int list \<Rightarrow> nat option" where
  "select_min cs sort_order_flag null_first_flag =
     (case filter (\<lambda>i. \<not> cur_exhausted (cs ! i)) [0..<length cs] of
        [] \<Rightarrow> None
      | first # others \<Rightarrow>
          Some (fold (\<lambda>i best.
                        if compare_at (cur_segment (cs ! i)) (cur_pos (cs ! i))
                             (cur_segment (cs ! best)) (cur_pos (cs ! best))
                             sort_order_flag null_first_flag < 0
                        then i else best)
                  others first))"

text \<open>
  Modelled from the spec: the selected row is appended to the output batch, column by
  column, and the cursor of its segment advances, pulling the source when the batch is
  used up.
\<close>

definition append_row :: "'a Chunk \<Rightarrow> 'a Chunk \<Rightarrow> nat \<Rightarrow> 'a Chunk" where
  "append_row out src row =
     (if out = [] then map (\<lambda>col. [col ! row]) src
      else map (\<lambda>(out_col, col). out_col @ [col ! row]) (zip out src))"

definition advance :: "('a Chunk \<Rightarrow> 'a Column) list \<Rightarrow> 'a ChunkCursor \<Rightarrow> 'a ChunkCursor" where
  "advance sort_exprs c =
     (let c1 = c\<lparr>cur_pos := cur_pos c + 1\<rparr>
      in if cur_pos c1 < num_rows (chunk (cur_segment c1)) then c1 else refill sort_exprs c1)"

text \<open>
  Modelled from the spec: rows are accumulated until the batch-size threshold is reached
  or all sources are exhausted. The recursion is on the capacity left in the output batch.
\<close>

fun merge_rows ::
  "nat \<Rightarrow> ('a::ord) SortedChunksMerger \<Rightarrow> 'a Chunk \<Rightarrow> 'a SortedChunksMerger \<times> 'a Chunk" where
  "merge_rows 0 m out = (m, out)"
| "merge_rows (Suc capacity) m out =
     (case select_min (merger_cursors m) (merger_sort_order_flag m) (merger_null_first_flag m) of
        None \<Rightarrow> (m, out)
      | Some s \<Rightarrow>
          (let c = merger_cursors m ! s;
               out' = append_row out (chunk (cur_segment c)) (cur_pos c);
               c' = advance (merger_sort_exprs m) c
           in merge_rows capacity (m\<lparr>merger_cursors := (merger_cursors m)[s := c']\<rparr>) out'))"

text \<open>
  Modelled from the spec: \<open>get_next(out_batch, out_end_of_stream)\<close> "pulls one merged
  batch or signals end-of-stream when all sources are exhausted and no buffered rows
  remain". The result is the status, the batch and the end-of-stream flag, together with
  the merger after the call.
\<close>

definition SortedChunksMerger_get_next ::
  "('a::ord) SortedChunksMerger \<Rightarrow> (Status \<times> 'a Chunk option \<times> bool) \<times> 'a SortedChunksMerger" where
  "SortedChunksMerger_get_next m =
     (if list_all cur_exhausted (merger_cursors m) then ((OK, None, True), m)
      else (case merge_rows (merger_batch_size m) m [] of
              (m', out) \<Rightarrow> ((OK, Some out, False), m')))"

text \<open>
  Modelled from the spec: the consumer of the merger, which calls \<open>get_next\<close> until
  end-of-stream and collects the batches, as the tests do. The fuel bounds the number of
  calls; \<open>None\<close> means that end-of-stream was not reached within the fuel or that a call
  failed.
\<close>

fun get_all_pages :: "nat \<Rightarrow> ('a::ord) SortedChunksMerger \<Rightarrow> 'a Chunk list option" where
  "get_all_pages 0 m = None"
| "get_all_pages (Suc fuel) m =
     (case SortedChunksMerger_get_next m of
        ((st, page, eos), m') \<Rightarrow>
          if \<not> ok st then None
          else if eos then Some []
          else (case page of
                  None \<Rightarrow> None
                | Some p \<Rightarrow> map_option (\<lambda>pages. p # pages) (get_all_pages fuel m')))"

subsection \<open>Auxiliary notions for the single-source merge\<close>

text \<open>
  A batch as the data model has it: \<open>arity\<close> columns that all have the row count of the
  batch. The row count may be 0.
\<close>

definition wf_batch :: "nat \<Rightarrow> 'a Chunk \<Rightarrow> bool" where
  "wf_batch arity batch =
     (length batch = arity \<and> list_all (\<lambda>col. length col = num_rows batch) batch)"

text \<open>The rows of a sequence of batches, in order, as one chunk of \<open>arity\<close> columns.\<close>

definition all_rows_of :: "nat \<Rightarrow> 'a Chunk list \<Rightarrow> 'a Chunk" where
  "all_rows_of arity batches = map (\<lambda>k. concat (map (\<lambda>batch. batch ! k) batches)) [0..<arity]"

text \<open>
  The state of a cursor during a merge: its source only holds well-formed batches, and
  unless it is exhausted its current batch is well formed and its position is a row of
  that batch. The rows a cursor still has to deliver, and their number. An output under
  construction has no column before its first row; \<open>columns_of\<close> reads it as \<open>arity\<close>
  empty columns.
\<close>

definition cursor_ok :: "nat \<Rightarrow> 'a ChunkCursor \<Rightarrow> bool" where
  "cursor_ok arity c =
     (list_all (wf_batch arity) (cur_source c)
      \<and> (cur_exhausted c \<or>
           (wf_batch arity (chunk (cur_segment c))
            \<and> cur_pos c < num_rows (chunk (cur_segment c)))))"

definition pending :: "nat \<Rightarrow> 'a ChunkCursor \<Rightarrow> 'a Chunk" where
  "pending arity c =
     (if cur_exhausted c then replicate arity []
      else map (\<lambda>k. drop (cur_pos c) (chunk (cur_segment c) ! k)
                     @ concat (map (\<lambda>batch. batch ! k) (cur_source c))) [0..<arity])"

definition remaining :: "'a ChunkCursor \<Rightarrow> nat" where
  "remaining c =
     (if cur_exhausted c then 0
      else num_rows (chunk (cur_segment c)) - cur_pos c + sum_list (map num_rows (cur_source c)))"

definition columns_of :: "nat \<Rightarrow> 'a Chunk \<Rightarrow> 'a Chunk" where
  "columns_of arity out = (if out = [] then replicate arity [] else out)"

subsection \<open>The fixture of the merger test\<close>

text \<open>
  Modelled from the spec: the values of the columns and "the column's type-specific
  comparator" (the columnar type system is not part of the sources), for the two value
  types of the test's columns: 32-bit integers, ordered by their value, and character
  strings (slices), ordered lexicographically by their bytes. Values of different types
  never meet in one column.
\<close>

datatype Datum = DInt int | DSlice string

instantiation Datum :: ord
begin

fun less_Datum :: "Datum \<Rightarrow> Datum \<Rightarrow> bool" where
  "less_Datum (DInt a) (DInt b) = (a < b)"
| "less_Datum (DSlice a) (DSlice b) = (a < b)"
| "less_Datum (DInt a) (DSlice b) = False"
| "less_Datum (DSlice a) (DInt b) = False"

definition less_eq_Datum :: "Datum \<Rightarrow> Datum \<Rightarrow> bool" where
  "less_eq_Datum x y = (x < y \<or> x = y)"

instance ..

end

text \<open>
  \<open>SortedChunksMergerTest::SetUp\<close>: three chunks with the columns custkey (not nullable),
  nation and region (nullable strings), ordered by region descending, nation ascending and
  custkey descending, each key nulls-first; the sort expressions are slot references to
  columns 2, 1 and 0.
\<close>

definition int_column :: "int list \<Rightarrow> Datum Column" where
  "int_column xs = map (\<lambda>x. Some (DInt x)) xs"

definition chunk_1 :: "Datum Chunk" where
  "chunk_1 =
     [int_column [71, 70, 69, 55, 49, 41, 24, 12, 2],
      replicate 3 None @ [Some (DSlice ''IRAN''), Some (DSlice ''IRAN''), Some (DSlice ''IRAN''),
        Some (DSlice ''JORDAN''), Some (DSlice ''JORDAN''), Some (DSlice ''JORDAN'')],
      replicate 3 None @ replicate 6 (Some (DSlice ''MIDDLE EAST''))]"

definition chunk_2 :: "Datum Chunk" where
  "chunk_2 =
     [int_column [54, 4, 16, 52, 6],
      [Some (DSlice ''EGYPT''), Some (DSlice ''EGYPT''), Some (DSlice ''IRAN''),
       Some (DSlice ''IRAQ''), Some (DSlice ''SAUDI ARABIA'')],
      replicate 5 (Some (DSlice ''MIDDLE EAST''))]"

definition chunk_3 :: "Datum Chunk" where
  "chunk_3 =
     [int_column [56, 58],
      [Some (DSlice ''IRAN''), Some (DSlice ''JORDAN'')],
      replicate 2 (Some (DSlice ''MIDDLE EAST''))]"

definition fixture_sort_exprs :: "(Datum Chunk \<Rightarrow> Datum Column) list" where
  "fixture_sort_exprs = [slot_ref 2, slot_ref 1, slot_ref 0]"

text \<open>
  \<open>SortedChunksMergerTest::three_suppliers\<close>: every supplier hands out its chunk once and
  then signals end-of-stream; \<open>config::vector_chunk_size\<close> is 1024.
\<close>

definition three_suppliers :: "Status + Datum SortedChunksMerger" where
  "three_suppliers =
     SortedChunksMerger_init [[chunk_1], [chunk_2], [chunk_3]] fixture_sort_exprs
       [False, True, False] [True, True, True] 1024"

section \<open>Auxiliary notions for stating the properties of DataSegment\<close>

text \<open>
  The entry \<open>compare_between_rows\<close> writes for a raw comparison result: its sign, negated
  in the reversed instance.
\<close>

definition three_way :: "bool \<Rightarrow> int \<Rightarrow> int" where
  "three_way reversed res =
     (let s = (if res < 0 then - 1 else if res > 0 then 1 else 0) in if reversed then - s else s)"

text \<open>
  The flag vectors as \<open>ChunksSorter\<close> documents them: one entry per order-by column,
  \<open>_sort_order_flag\<close> "1 for ascending, -1 for descending" and \<open>_null_first_flag\<close>
  "1 for greatest, -1 for least".
\<close>

definition flags_ok :: "nat \<Rightarrow> int list \<Rightarrow> int list \<Rightarrow> bool" where
  "flags_ok col_number sort_order_flag null_first_flag =
     (length sort_order_flag = col_number \<and> length null_first_flag = col_number
      \<and> list_all (\<lambda>f. f = 1 \<or> f = - 1) sort_order_flag
      \<and> list_all (\<lambda>f. f = 1 \<or> f = - 1) null_first_flag)"

text \<open>The rows below \<open>rows\<close> whose entry in a result array is negative, in order.\<close>

definition negatives :: "int list \<Rightarrow> nat \<Rightarrow> nat list" where
  "negatives compare_results rows = filter (\<lambda>j. compare_results ! j < 0) [0..<rows]"

text \<open>
  The calls of \<open>get_filter_array\<close> that stay within defined behaviour and within the
  documented ranges: all segments are well formed and have as many order-by columns as the
  segment the method is called on, the flags are as documented, row
  \<open>number_of_rows_to_sort - 1\<close> exists in the calling segment, and the segments hold fewer
  than \<open>2^32\<close> rows in all, so that the \<open>uint32_t\<close> counters cannot wrap.
\<close>

definition filter_call_ok ::
  "'a DataSegment \<Rightarrow> 'a DataSegment list \<Rightarrow> nat \<Rightarrow> int list \<Rightarrow> int list \<Rightarrow> bool" where
  "filter_call_ok self data_segments number_of_rows_to_sort sort_order_flags null_first_flags =
     (segment_ok self \<and> list_all segment_ok data_segments
      \<and> list_all (\<lambda>seg. length (order_by_columns seg) = length (order_by_columns self))
            data_segments
      \<and> flags_ok (length (order_by_columns self)) sort_order_flags null_first_flags
      \<and> 1 \<le> number_of_rows_to_sort \<and> number_of_rows_to_sort \<le> num_rows (chunk self)
      \<and> sum_list (map (\<lambda>seg. num_rows (chunk seg)) data_segments) < 2 ^ 32)"

section \<open>Example data\<close>

text \<open>
  A segment of two rows ordered by two keys: the first key is the second column of the
  chunk, the second key the first column.
\<close>

definition two_key_segment :: "int DataSegment" where
  "two_key_segment =
     DataSegment_new [slot_ref 1, slot_ref 0] [[Some 3, Some 4], [Some 10, Some 10]]"

text \<open>A segment of four rows with the same two keys.\<close>

definition four_row_segment :: "int DataSegment" where
  "four_row_segment =
     DataSegment_new [slot_ref 1, slot_ref 0]
       [[Some 3, Some 5, Some 1, Some 0], [Some 10, Some 10, Some 9, Some 11]]"

text \<open>
  Segments ordered by one key, the only column of their chunk: a sorted segment of two
  rows on which the filter is called, and a segment of four candidate rows.
\<close>

definition single_key_segment :: "'a Column \<Rightarrow> 'a DataSegment" where
  "single_key_segment col = DataSegment_new [slot_ref 0] [col]"

definition boundary_segment :: "int DataSegment" where
  "boundary_segment = single_key_segment [Some 1, Some 5]"

definition candidate_segment :: "int DataSegment" where
  "candidate_segment = single_key_segment [Some 3, Some 5, Some 0, Some 7]"

text \<open>
  A segment of three rows ordered by two keys, the second one nullable: rows 0 and 1 are
  equal on the first key, row 0 is null on the second key and rows 1 and 2 are not.
\<close>

definition null_key_segment :: "int DataSegment" where
  "null_key_segment =
     DataSegment_new [slot_ref 0, slot_ref 1]
       [[Some 2, Some 2, Some 1], [None, Some 3, Some 3]]"

section \<open>Properties of the scalar comparator\<close>

lemma DataSegment_new_columns:
  "chunk (DataSegment_new sort_exprs cnk) = cnk
   \<and> order_by_columns (DataSegment_new sort_exprs cnk) = map (\<lambda>expr_ctx. expr_ctx cnk) sort_exprs"
  by (simp add: DataSegment_new_def DataSegment_init_def DataSegment_empty_def)

lemma DataSegment_init_appends:
  "order_by_columns (DataSegment_init (DataSegment_new sort_exprs cnk) sort_exprs' cnk')
     = map (\<lambda>expr_ctx. expr_ctx cnk) sort_exprs @ map (\<lambda>expr_ctx. expr_ctx cnk') sort_exprs'"
  by (simp add: DataSegment_new_def DataSegment_init_def DataSegment_empty_def)

declare compare_at_from.simps [simp del]

lemma compare_at_from_all_equal:
  "(\<And>k. col_index \<le> k \<Longrightarrow> k < length (order_by_columns seg) \<Longrightarrow> key_compare seg i other j nff k = 0)
   \<Longrightarrow> compare_at_from seg i other j sof nff col_index = 0"
proof (induction seg i other j sof nff col_index rule: compare_at_from.induct)
  case (1 seg i other j sof nff col_index)
  show ?case
  proof (cases "col_index < length (order_by_columns seg)")
    case False
    then show ?thesis by (subst compare_at_from.simps) simp
  next
    case True
    have c0: "key_compare seg i other j nff col_index = 0"
      using "1.prems" [of col_index] True by simp
    have "compare_at_from seg i other j sof nff (col_index + 1) = 0"
      using "1.IH" True c0 "1.prems" by (simp add: key_compare_def)
    then show ?thesis
      using True c0 by (subst compare_at_from.simps) (simp add: key_compare_def)
  qed
qed

lemma compare_at_from_first_differing:
  "col_index \<le> k \<Longrightarrow> k < length (order_by_columns seg)
   \<Longrightarrow> key_compare seg i other j nff k \<noteq> 0
   \<Longrightarrow> (\<And>k'. col_index \<le> k' \<Longrightarrow> k' < k \<Longrightarrow> key_compare seg i other j nff k' = 0)
   \<Longrightarrow> compare_at_from seg i other j sof nff col_index = key_compare seg i other j nff k * sof ! k"
proof (induction seg i other j sof nff col_index rule: compare_at_from.induct)
  case (1 seg i other j sof nff col_index)
  have lt: "col_index < length (order_by_columns seg)"
    using "1.prems"(1,2) by simp
  show ?case
  proof (cases "col_index = k")
    case True
    then show ?thesis
      using lt "1.prems"(3) by (subst compare_at_from.simps) (simp add: key_compare_def)
  next
    case False
    then have less: "col_index < k" using "1.prems"(1) by simp
    have c0: "key_compare seg i other j nff col_index = 0"
      using "1.prems"(4) [of col_index] less by simp
    have "compare_at_from seg i other j sof nff (col_index + 1)
            = key_compare seg i other j nff k * sof ! k"
      using "1.IH" lt c0 less "1.prems"(2,3,4) by (simp add: key_compare_def)
    then show ?thesis
      using lt c0 by (subst compare_at_from.simps) (simp add: key_compare_def)
  qed
qed

text \<open>
  C1. For two segments with the same number of order-by columns, two valid row indexes
  and flags as documented, \<open>compare_at\<close> walks the keys in order: if key \<open>k\<close> is the first key whose raw
  column comparison (under that key's null-first flag) is not 0, the result is that raw
  comparison multiplied by the direction flag of key \<open>k\<close>; if every key compares equal,
  the result is 0.
\<close>

theorem compare_at_first_differing_key:
  assumes "length (order_by_columns other) = length (order_by_columns seg)"
    and "segment_ok seg" and "segment_ok other"
    and "i < num_rows (chunk seg)" and "j < num_rows (chunk other)"
    and "flags_ok (length (order_by_columns seg)) sort_order_flag null_first_flag"
  shows "(\<forall>k < length (order_by_columns seg).
            key_compare seg i other j null_first_flag k \<noteq> 0 \<and>
            (\<forall>k' < k. key_compare seg i other j null_first_flag k' = 0) \<longrightarrow>
            compare_at seg i other j sort_order_flag null_first_flag
              = key_compare seg i other j null_first_flag k * sort_order_flag ! k)
       \<and> ((\<forall>k < length (order_by_columns seg). key_compare seg i other j null_first_flag k = 0) \<longrightarrow>
            compare_at seg i other j sort_order_flag null_first_flag = 0)"
proof (intro conjI allI impI)
  fix k
  assume "k < length (order_by_columns seg)"
    and "key_compare seg i other j null_first_flag k \<noteq> 0 \<and>
         (\<forall>k' < k. key_compare seg i other j null_first_flag k' = 0)"
  then show "compare_at seg i other j sort_order_flag null_first_flag
               = key_compare seg i other j null_first_flag k * sort_order_flag ! k"
    unfolding compare_at_def by (intro compare_at_from_first_differing) auto
next
  assume "\<forall>k < length (order_by_columns seg). key_compare seg i other j null_first_flag k = 0"
  then show "compare_at seg i other j sort_order_flag null_first_flag = 0"
    unfolding compare_at_def by (intro compare_at_from_all_equal) auto
qed

text \<open>
  An instance: in \<open>two_key_segment\<close> the rows agree on the first key and differ on the
  second, descending one, so row 0 compares after row 1; a row compares equal to itself.
\<close>

theorem compare_at_first_differing_key_witness:
  "compare_at two_key_segment 0 two_key_segment 1 [1, - 1] [- 1, - 1] = 1
   \<and> compare_at two_key_segment 0 two_key_segment 0 [1, - 1] [- 1, - 1] = 0"
proof -
  have len: "length (order_by_columns two_key_segment) = length (order_by_columns two_key_segment)"
    by simp
  have wf: "segment_ok two_key_segment" by code_simp
  have r0: "0 < num_rows (chunk two_key_segment)" by code_simp
  have r1: "1 < num_rows (chunk two_key_segment)" by code_simp
  have n: "length (order_by_columns two_key_segment) = 2" by code_simp
  have k0: "key_compare two_key_segment 0 two_key_segment 1 [- 1, - 1] 0 = 0" by code_simp
  have k1: "key_compare two_key_segment 0 two_key_segment 1 [- 1, - 1] 1 = - 1" by code_simp
  have e0: "key_compare two_key_segment 0 two_key_segment 0 [- 1, - 1] 0 = 0" by code_simp
  have e1: "key_compare two_key_segment 0 two_key_segment 0 [- 1, - 1] 1 = 0" by code_simp
  have fl: "flags_ok (length (order_by_columns two_key_segment)) [1, - 1] [- 1, - 1]"
    using n by (simp add: flags_ok_def)
  note thm1 = compare_at_first_differing_key [OF len wf wf r0 r1 fl]
  note thm0 = compare_at_first_differing_key [OF len wf wf r0 r0 fl]
  have first: "key_compare two_key_segment 0 two_key_segment 1 [- 1, - 1] 1 \<noteq> 0 \<and>
      (\<forall>k' < 1. key_compare two_key_segment 0 two_key_segment 1 [- 1, - 1] k' = 0)"
    using k0 k1 by simp
  have "compare_at two_key_segment 0 two_key_segment 1 [1, - 1] [- 1, - 1]
          = key_compare two_key_segment 0 two_key_segment 1 [- 1, - 1] 1 * [1, - 1] ! 1"
    using conjunct1 [OF thm1, rule_format, of 1] first n by simp
  moreover have "\<forall>k < length (order_by_columns two_key_segment).
      key_compare two_key_segment 0 two_key_segment 0 [- 1, - 1] k = 0"
    using e0 e1 n by (simp add: less_Suc_eq numeral_2_eq_2)
  then have "compare_at two_key_segment 0 two_key_segment 0 [1, - 1] [- 1, - 1] = 0"
    using conjunct2 [OF thm0] by blast
  ultimately show ?thesis using k1 by simp
qed


section \<open>Properties of the bulk comparison primitives\<close>

lemma compare_between_rows_step_eq:
  assumes "indexes ! i < length cr"
  shows "compare_between_rows_step reversed inc base n nff i (indexes, nx, cr) =
     (let row = indexes ! i; res = column_compare_at inc row n base nff
      in (if res = 0 then indexes[nx := row] else indexes,
          if res = 0 then nx + 1 else nx,
          cr[row := three_way reversed res]))"
  using assms by (simp add: compare_between_rows_step_def three_way_def Let_def)

lemma compare_between_rows_fold:
  assumes "\<forall>r \<in> set rows. r < length results" and "k \<le> length rows"
  shows "case fold (compare_between_rows_step reversed inc base n nff) [0..<k] (rows, 0, results) of
           (ix, nx, cr) \<Rightarrow>
             length ix = length rows \<and> nx \<le> k
             \<and> take nx ix = filter (\<lambda>r. column_compare_at inc r n base nff = 0) (take k rows)
             \<and> drop k ix = drop k rows
             \<and> length cr = length results
             \<and> (\<forall>r < length results. cr ! r =
                   (if r \<in> set (take k rows) then three_way reversed (column_compare_at inc r n base nff)
                    else results ! r))"
  using assms(2)
proof (induction k)
  case 0
  then show ?case by simp
next
  case (Suc k)
  obtain ix nx cr where st:
    "fold (compare_between_rows_step reversed inc base n nff) [0..<k] (rows, 0, results) = (ix, nx, cr)"
    by (cases "fold (compare_between_rows_step reversed inc base n nff) [0..<k] (rows, 0, results)") auto
  from Suc have k: "k < length rows" by simp
  from Suc.IH st k have inv:
    "length ix = length rows" "nx \<le> k"
    "take nx ix = filter (\<lambda>r. column_compare_at inc r n base nff = 0) (take k rows)"
    "drop k ix = drop k rows" "length cr = length results"
    "\<forall>r < length results. cr ! r =
        (if r \<in> set (take k rows) then three_way reversed (column_compare_at inc r n base nff)
         else results ! r)"
    by auto
  have row: "ix ! k = rows ! k"
    using inv(1,4) k by (metis Cons_nth_drop_Suc nth_via_drop)
  have rlt: "rows ! k < length cr"
    using assms(1) k inv(5) by simp
  have tk: "take (Suc k) rows = take k rows @ [rows ! k]"
    using k by (simp add: take_Suc_conv_app_nth)
  have dk: "drop (Suc k) ix = drop (Suc k) rows"
    using inv(4) by (metis drop_Suc tl_drop)
  show ?case
  proof (cases "column_compare_at inc (rows ! k) n base nff = 0")
    case True
    have "take (Suc nx) (ix[nx := rows ! k]) = take nx ix @ [rows ! k]"
      using inv(1,2) k by (simp add: take_Suc_conv_app_nth)
    moreover have "drop (Suc k) (ix[nx := rows ! k]) = drop (Suc k) rows"
      using dk inv(2) by simp
    ultimately show ?thesis
      using True st row rlt inv tk
      by (auto simp: compare_between_rows_step_eq Let_def nth_list_update)
  next
    case False
    then show ?thesis
      using st row rlt inv tk dk
      by (auto simp: compare_between_rows_step_eq Let_def nth_list_update)
  qed
qed


lemma compare_between_rows_eq:
  assumes "\<forall>r \<in> set rows. r < length results"
  shows "\<exists>cr. compare_between_rows reversed inc base n rows results nff =
            (filter (\<lambda>r. column_compare_at inc r n base nff = 0) rows, cr)
          \<and> length cr = length results
          \<and> (\<forall>r < length results. cr ! r =
                (if r \<in> set rows then three_way reversed (column_compare_at inc r n base nff)
                 else results ! r))"
  using compare_between_rows_fold [where rows = rows and results = results and k = "length rows"
      and reversed = reversed and inc = inc and base = base and n = n and nff = nff] assms
  by (auto simp: compare_between_rows_def split: prod.splits)

lemma compare_column_with_one_row_eq:
  assumes "\<forall>r \<in> set rows. r < length results"
  shows "\<exists>cr. compare_column_with_one_row inc base n rows results sof nff =
            (filter (\<lambda>r. column_compare_at inc r n base nff = 0) rows, cr)
          \<and> length cr = length results
          \<and> (\<forall>r < length results. cr ! r =
                (if r \<in> set rows then three_way (sof < 0) (column_compare_at inc r n base nff)
                 else results ! r))"
  using compare_between_rows_eq [where rows = rows and results = results and reversed = True
          and inc = inc and base = base and n = n and nff = nff]
        compare_between_rows_eq [where rows = rows and results = results and reversed = False
          and inc = inc and base = base and n = n and nff = nff] assms
  by (auto simp: compare_column_with_one_row_def)

lemma three_way_sgn: "f \<noteq> 0 \<Longrightarrow> three_way (f < 0) c = sgn (c * f)"
  unfolding three_way_def sgn_mult by (auto simp: sgn_if)

declare compare_columns_from.simps [simp del]

lemma compare_columns_from_eq:
  assumes "\<forall>r \<in> set rows. r < length results"
    and "length (order_by_columns seg) = length cols"
    and "order_by_columns target = cols"
    and "\<forall>k < length cols. sof ! k \<noteq> 0"
  shows "\<exists>rows' cr.
           compare_columns_from row_to_sort cols seg sof nff j (rows, results) = (rows', cr)
         \<and> length cr = length results
         \<and> (\<forall>r < length results. cr ! r =
               (if r \<in> set rows \<and> j < length cols
                then sgn (compare_at_from seg r target row_to_sort sof nff j)
                else results ! r))"
  using assms
proof (induction row_to_sort cols seg sof nff j "(rows, results)"
         arbitrary: rows results rule: compare_columns_from.induct)
  case (1 row_to_sort cols seg sof nff j)
  let ?n = "length cols"
  note same = "1.prems"(2) and tgt = "1.prems"(3) and flags = "1.prems"(4)
  show ?case
  proof (cases "j < ?n")
    case False
    then show ?thesis by (subst compare_columns_from.simps) simp
  next
    case True
    let ?c = "\<lambda>r. column_compare_at (order_by_columns seg ! j) r row_to_sort (cols ! j) (nff ! j)"
    obtain cr1 where one:
      "compare_column_with_one_row (order_by_columns seg ! j) (cols ! j)
         row_to_sort rows results (sof ! j) (nff ! j) = (filter (\<lambda>r. ?c r = 0) rows, cr1)"
      and len1: "length cr1 = length results"
      and val1: "\<forall>r < length results. cr1 ! r =
                (if r \<in> set rows then three_way (sof ! j < 0) (?c r) else results ! r)"
      using compare_column_with_one_row_eq [OF "1.prems"(1), of "order_by_columns seg ! j"
          "cols ! j" row_to_sort "sof ! j" "nff ! j"] by blast
    have fj: "sof ! j \<noteq> 0" using flags True by simp
    have scalar: "\<And>r. compare_at_from seg r target row_to_sort sof nff j =
        (if ?c r \<noteq> 0 then ?c r * sof ! j else compare_at_from seg r target row_to_sort sof nff (j + 1))"
      using True same tgt by (subst compare_at_from.simps) (simp add: Let_def)
    show ?thesis
    proof (cases "filter (\<lambda>r. ?c r = 0) rows = []")
      case Nil: True
      then have all: "\<And>r. r \<in> set rows \<Longrightarrow> ?c r \<noteq> 0"
        by (auto simp: filter_empty_conv)
      show ?thesis
        using True one Nil len1 val1 all scalar fj
        by (subst compare_columns_from.simps) (auto simp: three_way_sgn)
    next
      case Cons: False
      have p: "\<forall>r \<in> set (filter (\<lambda>r. ?c r = 0) rows). r < length cr1"
        using "1.prems"(1) len1 by auto
      obtain rows' cr where rec:
        "compare_columns_from row_to_sort cols seg sof nff (j + 1)
            (filter (\<lambda>r. ?c r = 0) rows, cr1) = (rows', cr)"
        and len2: "length cr = length cr1"
        and val2: "\<forall>r < length cr1. cr ! r =
               (if r \<in> set (filter (\<lambda>r. ?c r = 0) rows) \<and> j + 1 < ?n
                then sgn (compare_at_from seg r target row_to_sort sof nff (j + 1))
                else cr1 ! r)"
        using "1.hyps" [OF True refl one [symmetric] Cons p same tgt flags] by blast
      have last: "\<not> j + 1 < ?n \<Longrightarrow> compare_at_from seg r target row_to_sort sof nff (j + 1) = 0" for r
        using same by (subst compare_at_from.simps) simp
      have "compare_columns_from row_to_sort cols seg sof nff j (rows, results) = (rows', cr)"
        using True one Cons rec by (subst compare_columns_from.simps) simp
      moreover have "\<forall>r < length results. cr ! r =
               (if r \<in> set rows \<and> j < ?n
                then sgn (compare_at_from seg r target row_to_sort sof nff j)
                else results ! r)"
      proof (intro allI impI)
        fix r assume r: "r < length results"
        show "cr ! r = (if r \<in> set rows \<and> j < ?n
                then sgn (compare_at_from seg r target row_to_sort sof nff j)
                else results ! r)"
        proof (cases "r \<in> set rows")
          case False
          then show ?thesis using val1 val2 r len1 by simp
        next
          case inrows: True
          show ?thesis
          proof (cases "?c r = 0")
            case True
            then show ?thesis
              using val1 val2 r len1 inrows scalar [of r] last [of r] \<open>j < ?n\<close>
              by (auto simp: three_way_def)
          next
            case False
            then show ?thesis
              using val1 val2 r len1 inrows scalar [of r] fj \<open>j < ?n\<close>
              by (auto simp: three_way_sgn)
          qed
        qed
      qed
      ultimately show ?thesis using len1 len2 by simp
    qed
  qed
qed

lemma compare_at_from_no_columns:
  "length (order_by_columns seg) \<le> j \<Longrightarrow> compare_at_from seg r target n sof nff j = 0"
  by (subst compare_at_from.simps) simp

lemma get_compare_results_fold:
  assumes "length rows_arr = length segs" and "length results_arr = length segs"
    and "\<forall>i < length segs. \<forall>r \<in> set (rows_arr ! i). r < length (results_arr ! i)"
    and "\<forall>i < length segs. length (order_by_columns (segs ! i)) = length cols"
    and "order_by_columns target = cols"
    and "\<forall>k < length cols. sof ! k \<noteq> 0"
    and "n \<le> length segs"
  shows "\<exists>ra ca.
      fold (\<lambda>i (rows_array, results_array).
                 (case compare_columns_from row_to_sort cols (segs ! i)
                         sof nff 0 (rows_array ! i, results_array ! i) of
                    (rows_to_compare, compare_results) \<Rightarrow>
                      (rows_array[i := rows_to_compare], results_array[i := compare_results])))
           [0..<n] (rows_arr, results_arr) = (ra, ca)
      \<and> length ra = length segs \<and> length ca = length segs
      \<and> (\<forall>i < length segs. n \<le> i \<longrightarrow> ra ! i = rows_arr ! i \<and> ca ! i = results_arr ! i)
      \<and> (\<forall>i < n. length (ca ! i) = length (results_arr ! i)
            \<and> (\<forall>r < length (results_arr ! i). ca ! i ! r =
                 (if r \<in> set (rows_arr ! i) \<and> 0 < length cols
                  then sgn (compare_at (segs ! i) r target row_to_sort sof nff)
                  else results_arr ! i ! r)))"
  using assms(7)
proof (induction n)
  case 0
  then show ?case using assms(1,2) by simp
next
  case (Suc n)
  let ?f = "\<lambda>i (rows_array, results_array).
                 (case compare_columns_from row_to_sort cols (segs ! i)
                         sof nff 0 (rows_array ! i, results_array ! i) of
                    (rows_to_compare, compare_results) \<Rightarrow>
                      (rows_array[i := rows_to_compare], results_array[i := compare_results]))"
  from Suc have n: "n < length segs" by simp
  from Suc.IH n obtain ra ca where
    st: "fold ?f [0..<n] (rows_arr, results_arr) = (ra, ca)"
    and len: "length ra = length segs" "length ca = length segs"
    and rest: "\<forall>i < length segs. n \<le> i \<longrightarrow> ra ! i = rows_arr ! i \<and> ca ! i = results_arr ! i"
    and fin: "\<forall>i < n. length (ca ! i) = length (results_arr ! i)
            \<and> (\<forall>r < length (results_arr ! i). ca ! i ! r =
                 (if r \<in> set (rows_arr ! i) \<and> 0 < length cols
                  then sgn (compare_at (segs ! i) r target row_to_sort sof nff)
                  else results_arr ! i ! r))"
    by auto
  have here: "ra ! n = rows_arr ! n" "ca ! n = results_arr ! n"
    using rest n by auto
  have b: "\<forall>r \<in> set (rows_arr ! n). r < length (results_arr ! n)"
    using assms(3) n by simp
  have c: "length (order_by_columns (segs ! n)) = length cols"
    using assms(4) n by simp
  obtain rows' cr where
    one: "compare_columns_from row_to_sort cols (segs ! n) sof nff 0 (rows_arr ! n, results_arr ! n) = (rows', cr)"
    and len1: "length cr = length (results_arr ! n)"
    and val1: "\<forall>r < length (results_arr ! n). cr ! r =
               (if r \<in> set (rows_arr ! n) \<and> 0 < length cols
                then sgn (compare_at_from (segs ! n) r target row_to_sort sof nff 0)
                else results_arr ! n ! r)"
    using compare_columns_from_eq [OF b c assms(5,6), of row_to_sort nff 0] by blast
  have step: "fold ?f [0..<Suc n] (rows_arr, results_arr) = (ra[n := rows'], ca[n := cr])"
    using st here one by simp
  show ?case
    unfolding step
    using len rest fin len1 val1 n
    by (auto simp: nth_list_update compare_at_def less_Suc_eq)
qed

lemma get_compare_results_eq:
  assumes "length rows_arr = length segs" and "length results_arr = length segs"
    and "\<forall>i < length segs. \<forall>r \<in> set (rows_arr ! i). r < length (results_arr ! i)"
    and "\<forall>i < length segs. length (order_by_columns (segs ! i)) = length cols"
    and "order_by_columns target = cols"
    and "\<forall>k < length cols. sof ! k \<noteq> 0"
  shows "\<exists>ra ca.
      get_compare_results row_to_sort cols rows_arr results_arr segs sof nff = (ra, ca)
      \<and> length ca = length segs
      \<and> (\<forall>i < length segs. length (ca ! i) = length (results_arr ! i)
            \<and> (\<forall>r < length (results_arr ! i). ca ! i ! r =
                 (if r \<in> set (rows_arr ! i) \<and> 0 < length cols
                  then sgn (compare_at (segs ! i) r target row_to_sort sof nff)
                  else results_arr ! i ! r)))"
  using get_compare_results_fold [OF assms order_refl, of row_to_sort nff]
  unfolding get_compare_results_def Let_def by blast

lemma flags_ok_nonzero:
  "flags_ok n sof nff \<Longrightarrow> \<forall>k < n. sof ! k \<noteq> 0"
  by (auto simp: flags_ok_def list_all_length)

text \<open>
  C9. When every listed row is a valid index of \<open>compare_results\<close>, \<open>compare_between_rows\<close>
  returns in \<open>rows_to_compare\<close> exactly the listed rows whose comparison with the base row
  on this column is 0, in their original order; the vector never grows, and the entries of
  \<open>compare_results\<close> at rows that were not listed are unchanged.
\<close>

theorem compare_between_rows_keeps_equal_rows:
  assumes "\<forall>row \<in> set rows_to_compare. row < length compare_results"
  shows "fst (compare_between_rows reversed incoming_column base_column n rows_to_compare
                compare_results null_first_flag)
           = filter (\<lambda>row. column_compare_at incoming_column row n base_column null_first_flag = 0)
               rows_to_compare
       \<and> length (fst (compare_between_rows reversed incoming_column base_column n rows_to_compare
                        compare_results null_first_flag)) \<le> length rows_to_compare
       \<and> length (snd (compare_between_rows reversed incoming_column base_column n rows_to_compare
                        compare_results null_first_flag)) = length compare_results
       \<and> (\<forall>row < length compare_results. row \<notin> set rows_to_compare \<longrightarrow>
             snd (compare_between_rows reversed incoming_column base_column n rows_to_compare
                    compare_results null_first_flag) ! row = compare_results ! row)"
proof -
  obtain cr where
    eq: "compare_between_rows reversed incoming_column base_column n rows_to_compare
           compare_results null_first_flag
         = (filter (\<lambda>row. column_compare_at incoming_column row n base_column null_first_flag = 0)
              rows_to_compare, cr)"
    and len: "length cr = length compare_results"
    and val: "\<forall>r < length compare_results. cr ! r =
                (if r \<in> set rows_to_compare
                 then three_way reversed (column_compare_at incoming_column r n base_column null_first_flag)
                 else compare_results ! r)"
    using compare_between_rows_eq [OF assms] by blast
  show ?thesis
    unfolding eq using len val by simp
qed

text \<open>
  An instance: of the listed rows 3, 1 and 2 the rows 1 and 2 hold the base value, and
  the entry of the unlisted row 0 keeps its old value 7.
\<close>

theorem compare_between_rows_keeps_equal_rows_witness:
  "fst (compare_between_rows False [Some 1, Some 2, Some 2, Some (3::int)] [Some 2] 0
          [3, 1, 2] [7, 7, 7, 7] (- 1)) = [1, 2]
   \<and> snd (compare_between_rows False [Some 1, Some 2, Some 2, Some (3::int)] [Some 2] 0
          [3, 1, 2] [7, 7, 7, 7] (- 1)) ! 0 = 7"
proof -
  have h: "\<forall>row \<in> set [3, 1, 2]. row < length [7, 7, 7, 7 :: int]" by simp
  have f: "filter (\<lambda>row. column_compare_at [Some 1, Some 2, Some 2, Some (3::int)] row 0 [Some 2] (- 1) = 0)
             [3, 1, 2] = [1, 2]"
    by code_simp
  show ?thesis
    using compare_between_rows_keeps_equal_rows [OF h, where reversed = False
        and incoming_column = "[Some 1, Some 2, Some 2, Some (3::int)]" and n = 0
        and base_column = "[Some 2]" and null_first_flag = "- 1"] f
    by simp
qed

text \<open>
  C3. Let every candidate set hold all rows of its segment, let the segments have as many
  order-by columns as the target (at least one), and let the flags be as documented. Then
  after \<open>get_compare_results\<close> the entry of every row is the sign of the scalar comparison
  \<open>compare_at\<close> of that row with the target row under the same flags; in particular it is
  -1, 0 or 1.
\<close>

theorem get_compare_results_agrees_with_compare_at:
  assumes "rows_to_compare_array = map (\<lambda>seg. [0..<num_rows (chunk seg)]) data_segments"
    and "length compare_results_array = length data_segments"
    and "\<forall>i < length data_segments.
           length (compare_results_array ! i) = num_rows (chunk (data_segments ! i))"
    and "\<forall>i < length data_segments.
           length (order_by_columns (data_segments ! i)) = length (order_by_columns target)"
    and "order_by_columns target \<noteq> []"
    and "flags_ok (length (order_by_columns target)) sort_order_flags null_first_flags"
    and "i < length data_segments" and "j < num_rows (chunk (data_segments ! i))"
  shows "snd (get_compare_results row_to_sort (order_by_columns target) rows_to_compare_array
                compare_results_array data_segments sort_order_flags null_first_flags) ! i ! j
           = sgn (compare_at (data_segments ! i) j target row_to_sort
                    sort_order_flags null_first_flags)
       \<and> snd (get_compare_results row_to_sort (order_by_columns target) rows_to_compare_array
                compare_results_array data_segments sort_order_flags null_first_flags) ! i ! j
           \<in> {- 1, 0, 1}"
proof -
  have a1: "length rows_to_compare_array = length data_segments"
    using assms(1) by simp
  have a3: "\<forall>i < length data_segments.
              \<forall>r \<in> set (rows_to_compare_array ! i). r < length (compare_results_array ! i)"
    using assms(1,3) by simp
  obtain ra ca where
    eq: "get_compare_results row_to_sort (order_by_columns target) rows_to_compare_array
           compare_results_array data_segments sort_order_flags null_first_flags = (ra, ca)"
    and val: "\<forall>i < length data_segments. length (ca ! i) = length (compare_results_array ! i)
            \<and> (\<forall>r < length (compare_results_array ! i). ca ! i ! r =
                 (if r \<in> set (rows_to_compare_array ! i) \<and> 0 < length (order_by_columns target)
                  then sgn (compare_at (data_segments ! i) r target row_to_sort
                              sort_order_flags null_first_flags)
                  else compare_results_array ! i ! r))"
    using get_compare_results_eq [OF a1 assms(2) a3 assms(4) refl
        flags_ok_nonzero [OF assms(6)], of row_to_sort null_first_flags] by blast
  have "ca ! i ! j = sgn (compare_at (data_segments ! i) j target row_to_sort
                            sort_order_flags null_first_flags)"
    using val assms(1,3,5,7,8) by simp
  then show ?thesis
    unfolding eq by (simp add: sgn_if)
qed

text \<open>
  An instance: row 1 of \<open>four_row_segment\<close> against row 1 of \<open>two_key_segment\<close>, decided
  by the second, descending key.
\<close>

theorem get_compare_results_agrees_with_compare_at_witness:
  "snd (get_compare_results 1 (order_by_columns two_key_segment)
          (map (\<lambda>seg. [0..<num_rows (chunk seg)]) [four_row_segment]) [[5, 5, 5, 5]]
          [four_row_segment] [1, - 1] [- 1, - 1]) ! 0 ! 1
     = sgn (compare_at ([four_row_segment] ! 0) 1 two_key_segment 1 [1, - 1] [- 1, - 1])
   \<and> compare_at ([four_row_segment] ! 0) 1 two_key_segment 1 [1, - 1] [- 1, - 1] = - 1"
proof -
  have h2: "length [[5, 5, 5, 5 :: int]] = length [four_row_segment]" by simp
  have h3: "\<forall>i < length [four_row_segment].
              length ([[5, 5, 5, 5 :: int]] ! i) = num_rows (chunk ([four_row_segment] ! i))"
    by (simp add: four_row_segment_def DataSegment_new_def DataSegment_init_def DataSegment_empty_def num_rows_def)
  have h4: "\<forall>i < length [four_row_segment].
              length (order_by_columns ([four_row_segment] ! i))
                = length (order_by_columns two_key_segment)"
    by (simp add: four_row_segment_def two_key_segment_def DataSegment_new_def DataSegment_init_def DataSegment_empty_def)
  have h5: "order_by_columns two_key_segment \<noteq> []"
    by (simp add: two_key_segment_def DataSegment_new_def DataSegment_init_def DataSegment_empty_def)
  have h6: "flags_ok (length (order_by_columns two_key_segment)) [1, - 1] [- 1, - 1]"
    by (simp add: flags_ok_def two_key_segment_def DataSegment_new_def DataSegment_init_def DataSegment_empty_def)
  have h7: "0 < length [four_row_segment]" by simp
  have h8: "1 < num_rows (chunk ([four_row_segment] ! 0))"
    by (simp add: four_row_segment_def DataSegment_new_def DataSegment_init_def DataSegment_empty_def num_rows_def)
  have c: "compare_at ([four_row_segment] ! 0) 1 two_key_segment 1 [1, - 1] [- 1, - 1] = - 1"
    by code_simp
  show ?thesis
    using get_compare_results_agrees_with_compare_at [OF refl h2 h3 h4 h5 h6 h7 h8, of 1] c
    by simp
qed

section \<open>The loops of the top-N filter\<close>

lemma vector_resize_Nil [simp]: "vector_resize n d [] = replicate n d"
  by (simp add: vector_resize_def)

lemma length_vector_resize [simp]: "length (vector_resize n d v) = n"
  by (simp add: vector_resize_def)

lemma all_rows_fold:
  "k \<le> length v \<Longrightarrow> fold (\<lambda>j v. v[j := j]) [0..<k] v = [0..<k] @ drop k v"
proof (induction k)
  case 0
  then show ?case by simp
next
  case (Suc k)
  then have "([0..<k] @ drop k v)[k := k] = [0..<k] @ (drop k v)[0 := k]"
    by (simp add: list_update_append)
  also have "(drop k v)[0 := k] = k # drop (Suc k) v"
    using Suc.prems by (metis Cons_nth_drop_Suc Suc_le_lessD list_update_code(2))
  finally show ?case using Suc by simp
qed

lemma all_rows_eq [simp]: "all_rows rows = [0..<rows]"
  by (simp add: all_rows_def all_rows_fold)

lemma negatives_Suc:
  "negatives cr (Suc k) = (if cr ! k < 0 then negatives cr k @ [k] else negatives cr k)"
  by (simp add: negatives_def)

lemma length_negatives_le: "length (negatives cr k) \<le> k"
  unfolding negatives_def by (metis diff_zero length_filter_le length_upt)

lemma map_upt_Suc_update:
  "k < length f \<Longrightarrow> (map g [0..<k] @ drop k f)[k := v] = map g [0..<k] @ v # drop (Suc k) f"
  by (simp add: list_update_append Cons_nth_drop_Suc [symmetric])

lemma map_upt_Suc_keep:
  "k < length f \<Longrightarrow> map g [0..<k] @ drop k f = map g [0..<k] @ f ! k # drop (Suc k) f"
  by (simp add: Cons_nth_drop_Suc)

lemma mark_all_rows_fold:
  assumes "k \<le> length f"
  shows "fold (\<lambda>j (filter_i, least_num, middle_num).
             if cr ! j < 0
             then (filter_i[j := BEFORE_LAST_RESULT], least_num + 1, middle_num)
             else (filter_i[j := IN_LAST_RESULT], least_num, middle_num + 1))
       [0..<k] (f, l, m)
     = (map (\<lambda>j. if cr ! j < 0 then BEFORE_LAST_RESULT else IN_LAST_RESULT) [0..<k] @ drop k f,
        l + of_nat (length (negatives cr k)),
        m + of_nat (k - length (negatives cr k)))"
  using assms
proof (induction k)
  case 0
  then show ?case by (simp add: negatives_def)
next
  case (Suc k)
  then have k: "k < length f" by simp
  have le: "length (negatives cr k) \<le> k" by (rule length_negatives_le)
  show ?case
    using Suc k le
    by (simp add: negatives_Suc map_upt_Suc_update Suc_diff_le ac_simps)
qed

lemma mark_all_rows_eq:
  "length f = rows \<Longrightarrow> mark_all_rows cr rows (f, l, m)
     = (map (\<lambda>j. if cr ! j < 0 then BEFORE_LAST_RESULT else IN_LAST_RESULT) [0..<rows],
        l + of_nat (length (negatives cr rows)),
        m + of_nat (rows - length (negatives cr rows)))"
  unfolding mark_all_rows_def by (simp add: mark_all_rows_fold)

lemma mark_in_rows_fold:
  assumes "k \<le> length f"
  shows "fold (\<lambda>j (filter_i, middle_num).
             if cr ! j < 0
             then (filter_i[j := IN_LAST_RESULT], middle_num + 1)
             else (filter_i, middle_num))
       [0..<k] (f, m)
     = (map (\<lambda>j. if cr ! j < 0 then IN_LAST_RESULT else f ! j) [0..<k] @ drop k f,
        m + of_nat (length (negatives cr k)))"
  using assms
proof (induction k)
  case 0
  then show ?case by (simp add: negatives_def)
next
  case (Suc k)
  then have k: "k < length f" by simp
  show ?case
    using Suc k
    by (simp add: negatives_Suc map_upt_Suc_update map_upt_Suc_keep [symmetric] ac_simps)
qed

lemma mark_in_rows_eq:
  "length f = rows \<Longrightarrow> mark_in_rows cr rows (f, m)
     = (map (\<lambda>j. if cr ! j < 0 then IN_LAST_RESULT else f ! j) [0..<rows],
        m + of_nat (length (negatives cr rows)))"
  unfolding mark_in_rows_def by (simp add: mark_in_rows_fold)

lemma mark_before_rows_eq:
  "length f = rows \<Longrightarrow> mark_before_rows cr rows (f, l)
     = (map (\<lambda>j. if cr ! j < 0 then BEFORE_LAST_RESULT else f ! j) [0..<rows],
        l + of_nat (length (negatives cr rows)))"
proof -
  have "k \<le> length f \<Longrightarrow> fold (\<lambda>j (filter_i, least_num).
             if cr ! j < 0
             then (filter_i[j := BEFORE_LAST_RESULT], least_num + 1)
             else (filter_i, least_num))
       [0..<k] (f, l)
     = (map (\<lambda>j. if cr ! j < 0 then BEFORE_LAST_RESULT else f ! j) [0..<k] @ drop k f,
        l + of_nat (length (negatives cr k)))" for k
  proof (induction k)
    case 0
    then show ?case by (simp add: negatives_def)
  next
    case (Suc k)
    then have k: "k < length f" by simp
    show ?case
      using Suc k
      by (simp add: negatives_Suc map_upt_Suc_update map_upt_Suc_keep [symmetric] ac_simps)
  qed
  from this [of rows] show "length f = rows \<Longrightarrow> ?thesis"
    unfolding mark_before_rows_def by simp
qed

lemma negatives_mono: "k \<le> rows \<Longrightarrow> length (negatives cr k) \<le> length (negatives cr rows)"
proof -
  assume "k \<le> rows"
  then have "[0..<rows] = [0..<k] @ [k..<rows]"
    by (metis le_add_diff_inverse upt_add_eq_append zero_le)
  then show ?thesis by (simp add: negatives_def)
qed

lemma collect_rows_fold:
  assumes "length rc = length (negatives cr rows)" and "k \<le> rows" and "rows \<le> length cr"
  shows "fold (\<lambda>j (rows_to_compare, first_index, compare_results).
             (if compare_results ! j < 0
              then (rows_to_compare[first_index := j], first_index + 1, compare_results[j := 0])
              else (rows_to_compare, first_index, compare_results[j := 0])))
       [0..<k] (rc, 0, cr)
     = (negatives cr k @ drop (length (negatives cr k)) rc, length (negatives cr k),
        replicate k 0 @ drop k cr)"
  using assms(2)
proof (induction k)
  case 0
  then show ?case by (simp add: negatives_def)
next
  case (Suc k)
  then have k: "k < length cr" "k < rows" using assms(3) by auto
  have at: "(replicate k 0 @ drop k cr) ! k = cr ! k"
    using k by (simp add: nth_append)
  have upd: "(replicate k 0 @ drop k cr)[k := 0] = replicate (Suc k) 0 @ drop (Suc k) cr"
    using k by (simp add: list_update_append Cons_nth_drop_Suc [symmetric] replicate_append_same)
  show ?case
  proof (cases "cr ! k < 0")
    case True
    have "length (negatives cr (Suc k)) \<le> length (negatives cr rows)"
      using k by (intro negatives_mono) simp
    then have lt: "length (negatives cr k) < length rc"
      using True assms(1) by (simp add: negatives_Suc)
    have "(negatives cr k @ drop (length (negatives cr k)) rc)[length (negatives cr k) := k]
            = negatives cr k @ k # drop (Suc (length (negatives cr k))) rc"
      using lt by (simp add: list_update_append Cons_nth_drop_Suc [symmetric])
    then show ?thesis
      using Suc k True at upd by (simp add: negatives_Suc)
  next
    case False
    then show ?thesis
      using Suc k at upd by (simp add: negatives_Suc)
  qed
qed

lemma collect_rows_eq:
  "length rc = length (negatives cr rows) \<Longrightarrow> length cr = rows \<Longrightarrow>
   collect_rows rows (rc, 0, cr) = (negatives cr rows, length (negatives cr rows), replicate rows 0)"
  unfolding collect_rows_def by (simp add: collect_rows_fold)

lemma nth_map_upt_drop: "k < length f \<Longrightarrow> (map g [0..<k] @ drop k f) ! k = f ! k"
  by (simp add: nth_append)

lemma mark_all_segments_eq:
  "mark_all_segments segs cra fa0 =
     (map (\<lambda>i. map (\<lambda>j. if cra ! i ! j < 0 then BEFORE_LAST_RESULT else IN_LAST_RESULT)
                [0..<num_rows (chunk (segs ! i))]) [0..<length segs],
      of_nat (sum_list (map (\<lambda>i. length (negatives (cra ! i) (num_rows (chunk (segs ! i)))))
                         [0..<length segs])),
      of_nat (sum_list (map (\<lambda>i. num_rows (chunk (segs ! i))
                                  - length (negatives (cra ! i) (num_rows (chunk (segs ! i)))))
                         [0..<length segs])))"
proof -
  let ?rows = "\<lambda>i. num_rows (chunk (segs ! i))"
  let ?F = "\<lambda>i (filter_array, least_num, middle_num).
                 (let rows = num_rows (chunk (segs ! i))
                  in (case mark_all_rows (cra ! i) rows
                            (vector_resize rows 0 (filter_array ! i), least_num, middle_num) of
                        (filter_i, least_num', middle_num') \<Rightarrow>
                          (filter_array[i := filter_i], least_num', middle_num')))"
  let ?G = "\<lambda>i. map (\<lambda>j. if cra ! i ! j < 0 then BEFORE_LAST_RESULT else IN_LAST_RESULT) [0..<?rows i]"
  let ?base = "vector_resize (length segs) [] fa0"
  have "k \<le> length segs \<Longrightarrow>
        fold ?F [0..<k] (?base, 0, 0)
          = (map ?G [0..<k] @ drop k ?base,
             of_nat (sum_list (map (\<lambda>i. length (negatives (cra ! i) (?rows i))) [0..<k])),
             of_nat (sum_list (map (\<lambda>i. ?rows i - length (negatives (cra ! i) (?rows i))) [0..<k])))"
    for k
  proof (induction k)
    case 0
    then show ?case by simp
  next
    case (Suc k)
    then have k: "k < length ?base" by simp
    show ?case
      using Suc k
      by (simp add: nth_map_upt_drop mark_all_rows_eq map_upt_Suc_update Let_def)
  qed
  from this [of "length segs"] show ?thesis
    unfolding mark_all_segments_def Let_def by simp
qed

lemma mark_before_segments_eq:
  assumes "length fa1 = length segs"
    and "\<forall>i < length segs. length (fa1 ! i) = num_rows (chunk (segs ! i))"
  shows "mark_before_segments segs cra fa1 =
     (map (\<lambda>i. map (\<lambda>j. if cra ! i ! j < 0 then BEFORE_LAST_RESULT else fa1 ! i ! j)
                [0..<num_rows (chunk (segs ! i))]) [0..<length segs],
      of_nat (sum_list (map (\<lambda>i. length (negatives (cra ! i) (num_rows (chunk (segs ! i)))))
                         [0..<length segs])))"
proof -
  let ?rows = "\<lambda>i. num_rows (chunk (segs ! i))"
  let ?F = "\<lambda>i (filter_array, least_num).
                 (let rows = num_rows (chunk (segs ! i))
                  in (case mark_before_rows (cra ! i) rows (filter_array ! i, least_num) of
                        (filter_i, least_num') \<Rightarrow> (filter_array[i := filter_i], least_num')))"
  let ?G = "\<lambda>i. map (\<lambda>j. if cra ! i ! j < 0 then BEFORE_LAST_RESULT else fa1 ! i ! j) [0..<?rows i]"
  have "k \<le> length segs \<Longrightarrow>
        fold ?F [0..<k] (fa1, 0)
          = (map ?G [0..<k] @ drop k fa1,
             of_nat (sum_list (map (\<lambda>i. length (negatives (cra ! i) (?rows i))) [0..<k])))"
    for k
  proof (induction k)
    case 0
    then show ?case by simp
  next
    case (Suc k)
    then have k: "k < length fa1" "length (fa1 ! k) = ?rows k" using assms by auto
    show ?case
      using Suc k
      by (simp add: nth_map_upt_drop mark_before_rows_eq map_upt_Suc_update Let_def)
  qed
  from this [of "length segs"] show ?thesis
    unfolding mark_before_segments_def Let_def using assms(1) by simp
qed

lemma collect_segments_eq:
  assumes "length cra = length segs"
    and "\<forall>i < length segs. length (cra ! i) = num_rows (chunk (segs ! i))"
    and "\<forall>i < length segs.
           unat (fsa ! i) = length (negatives (cra ! i) (num_rows (chunk (segs ! i))))"
  shows "collect_segments segs cra fsa =
     (map (\<lambda>i. negatives (cra ! i) (num_rows (chunk (segs ! i)))) [0..<length segs],
      map (\<lambda>i. replicate (num_rows (chunk (segs ! i))) 0) [0..<length segs])"
proof -
  let ?rows = "\<lambda>i. num_rows (chunk (segs ! i))"
  let ?F = "\<lambda>i (rows_to_compare_array, compare_results_array).
                 (let rows = num_rows (chunk (segs ! i))
                  in (case collect_rows rows
                            (vector_resize (unat (fsa ! i)) 0 (rows_to_compare_array ! i),
                             0, compare_results_array ! i) of
                        (rows_to_compare, first_index, compare_results) \<Rightarrow>
                          (rows_to_compare_array[i := rows_to_compare],
                           compare_results_array[i := compare_results])))"
  let ?base = "vector_resize (length segs) [] [] :: nat list list"
  have "k \<le> length segs \<Longrightarrow>
        fold ?F [0..<k] (?base, cra)
          = (map (\<lambda>i. negatives (cra ! i) (?rows i)) [0..<k] @ drop k ?base,
             map (\<lambda>i. replicate (?rows i) 0) [0..<k] @ drop k cra)"
    for k
  proof (induction k)
    case 0
    then show ?case by simp
  next
    case (Suc k)
    then have k: "k < length segs" "k < length cra" "length (cra ! k) = ?rows k"
      "unat (fsa ! k) = length (negatives (cra ! k) (?rows k))"
      using assms by auto
    have b: "(map (\<lambda>i. negatives (cra ! i) (?rows i)) [0..<k] @ drop k ?base) ! k = []"
      using k by (simp add: nth_append)
    have u1: "(map (\<lambda>i. negatives (cra ! i) (?rows i)) [0..<k] @ drop k ?base)[k := v]
              = map (\<lambda>i. negatives (cra ! i) (?rows i)) [0..<k] @ v # drop (Suc k) ?base" for v
      using k by (intro map_upt_Suc_update) simp
    show ?case
      using Suc k b u1
      by (simp add: nth_map_upt_drop collect_rows_eq map_upt_Suc_update Let_def)
  qed
  from this [of "length segs"] show ?thesis
    unfolding collect_segments_def Let_def using assms(1) by simp
qed

lemma ucast_of_nat_32_64:
  "x < 2 ^ 32 \<Longrightarrow> (ucast (of_nat x :: 32 word) :: 64 word) = of_nat x"
proof -
  assume x: "x < 2 ^ 32"
  have "(ucast (of_nat x :: 32 word) :: 64 word) = of_nat (unat (of_nat x :: 32 word))"
    by simp
  also have "unat (of_nat x :: 32 word) = x"
    using x by (simp add: unat_of_nat)
  finally show ?thesis .
qed

lemma first_size_no_wrap:
  assumes "s + c < 2 ^ 32"
  shows "(ucast (of_nat s + of_nat c :: 32 word) :: 64 word) - ucast (of_nat s :: 32 word) = of_nat c"
proof -
  have "(of_nat s + of_nat c :: 32 word) = of_nat (s + c)" by simp
  then have "(ucast (of_nat s + of_nat c :: 32 word) :: 64 word) = of_nat (s + c)"
    using assms ucast_of_nat_32_64 [of "s + c"] by simp
  moreover have "(ucast (of_nat s :: 32 word) :: 64 word) = of_nat s"
    using assms by (intro ucast_of_nat_32_64) simp
  ultimately show ?thesis by simp
qed

lemma sum_list_upt_mono:
  fixes f g :: "nat \<Rightarrow> nat"
  shows "(\<And>i. i < n \<Longrightarrow> f i \<le> g i) \<Longrightarrow> sum_list (map f [0..<n]) \<le> sum_list (map g [0..<n])"
proof (induction n)
  case 0
  then show ?case by simp
next
  case (Suc n)
  have "sum_list (map f [0..<n]) \<le> sum_list (map g [0..<n])"
    using Suc by simp
  moreover have "f n \<le> g n" using Suc.prems by simp
  ultimately show ?case by simp
qed

lemma sum_list_upt_prefix:
  "k \<le> n \<Longrightarrow> sum_list (map f [0..<k]) \<le> sum_list (map (f :: nat \<Rightarrow> nat) [0..<n])"
proof -
  assume "k \<le> n"
  then have "[0..<n] = [0..<k] @ [k..<n]"
    by (metis le_add_diff_inverse upt_add_eq_append zero_le)
  then show ?thesis by simp
qed

lemma mark_in_segments_eq:
  assumes "sum_list (map (\<lambda>i. num_rows (chunk (segs ! i))) [0..<length segs]) < 2 ^ 32"
  shows "mark_in_segments segs cra fa0 =
     (map (\<lambda>i. map (\<lambda>j. if cra ! i ! j < 0 then IN_LAST_RESULT
                         else vector_resize (num_rows (chunk (segs ! i))) 0
                                (vector_resize (length segs) [] fa0 ! i) ! j)
                [0..<num_rows (chunk (segs ! i))]) [0..<length segs],
      of_nat (sum_list (map (\<lambda>i. length (negatives (cra ! i) (num_rows (chunk (segs ! i)))))
                         [0..<length segs])),
      map (\<lambda>i. of_nat (length (negatives (cra ! i) (num_rows (chunk (segs ! i))))))
        [0..<length segs])"
proof -
  let ?rows = "\<lambda>i. num_rows (chunk (segs ! i))"
  let ?cnt = "\<lambda>i. length (negatives (cra ! i) (?rows i))"
  let ?F = "\<lambda>i (filter_array, middle_num, first_size_array).
                 (let rows = num_rows (chunk (segs ! i));
                      local_first_size = (ucast middle_num :: 64 word)
                  in (case mark_in_rows (cra ! i) rows
                            (vector_resize rows 0 (filter_array ! i), middle_num) of
                        (filter_i, middle_num') \<Rightarrow>
                          (filter_array[i := filter_i], middle_num',
                           first_size_array[i := ucast middle_num' - local_first_size])))"
  let ?base = "vector_resize (length segs) [] fa0"
  let ?G = "\<lambda>i. map (\<lambda>j. if cra ! i ! j < 0 then IN_LAST_RESULT
                         else vector_resize (?rows i) 0 (?base ! i) ! j) [0..<?rows i]"
  let ?fs0 = "vector_resize (length segs) 0 [] :: 64 word list"
  have "k \<le> length segs \<Longrightarrow>
        fold ?F [0..<k] (?base, 0, ?fs0)
          = (map ?G [0..<k] @ drop k ?base,
             of_nat (sum_list (map ?cnt [0..<k])),
             map (\<lambda>i. of_nat (?cnt i)) [0..<k] @ drop k ?fs0)"
    for k
  proof (induction k)
    case 0
    then show ?case by simp
  next
    case (Suc k)
    then have k: "k < length ?base" "k < length ?fs0" by simp_all
    have "sum_list (map ?cnt [0..<Suc k]) \<le> sum_list (map ?rows [0..<Suc k])"
      by (intro sum_list_upt_mono) (simp add: length_negatives_le)
    also have "\<dots> \<le> sum_list (map ?rows [0..<length segs])"
      using Suc.prems by (intro sum_list_upt_prefix)
    finally have small: "sum_list (map ?cnt [0..<k]) + ?cnt k < 2 ^ 32"
      using assms by simp
    have u: "(map (\<lambda>i. of_nat (?cnt i)) [0..<k] @ drop k ?fs0)[k := v]
              = map (\<lambda>i. of_nat (?cnt i)) [0..<k] @ v # drop (Suc k) ?fs0" for v :: "64 word"
      using k by (intro map_upt_Suc_update) simp
    show ?case
      using Suc k u first_size_no_wrap [OF small]
      by (simp add: nth_map_upt_drop mark_in_rows_eq map_upt_Suc_update Let_def)
  qed
  from this [of "length segs"] show ?thesis
    unfolding mark_in_segments_def Let_def by simp
qed

section \<open>The comparison passes of the top-N filter\<close>

lemma sgn_neg_iff: "sgn (x :: int) < 0 \<longleftrightarrow> x < 0"
  by (simp add: sgn_if)

lemma map_nth_upt: "map (\<lambda>i. f (xs ! i)) [0..<length xs] = map f xs"
  by (rule nth_equalityI) simp_all

lemma compare_pass_zero_init:
  assumes "length rows_arr = length segs" and "length results_arr = length segs"
    and "\<forall>i < length segs. results_arr ! i = replicate (num_rows (chunk (segs ! i))) 0"
    and "\<forall>i < length segs. \<forall>r \<in> set (rows_arr ! i). r < num_rows (chunk (segs ! i))"
    and "\<forall>i < length segs. length (order_by_columns (segs ! i)) = length (order_by_columns target)"
    and "\<forall>k < length (order_by_columns target). sof ! k \<noteq> 0"
  shows "\<exists>ra ca.
      get_compare_results row_to_sort (order_by_columns target) rows_arr results_arr segs sof nff
        = (ra, ca)
      \<and> length ca = length segs
      \<and> (\<forall>i < length segs. length (ca ! i) = num_rows (chunk (segs ! i))
            \<and> (\<forall>j < num_rows (chunk (segs ! i)). ca ! i ! j =
                 (if j \<in> set (rows_arr ! i)
                  then sgn (compare_at (segs ! i) j target row_to_sort sof nff) else 0)))"
proof -
  have a3: "\<forall>i < length segs. \<forall>r \<in> set (rows_arr ! i). r < length (results_arr ! i)"
    using assms(3,4) by simp
  obtain ra ca where
    eq: "get_compare_results row_to_sort (order_by_columns target) rows_arr results_arr segs sof nff
           = (ra, ca)"
    and len: "length ca = length segs"
    and val: "\<forall>i < length segs. length (ca ! i) = length (results_arr ! i)
            \<and> (\<forall>r < length (results_arr ! i). ca ! i ! r =
                 (if r \<in> set (rows_arr ! i) \<and> 0 < length (order_by_columns target)
                  then sgn (compare_at (segs ! i) r target row_to_sort sof nff)
                  else results_arr ! i ! r))"
    using get_compare_results_eq [OF assms(1,2) a3 assms(5) refl assms(6), of row_to_sort nff]
    by blast
  have none: "\<not> 0 < length (order_by_columns target) \<Longrightarrow> i < length segs \<Longrightarrow>
              compare_at (segs ! i) j target row_to_sort sof nff = 0" for i j
    using assms(5) by (simp add: compare_at_def compare_at_from_no_columns)
  have "\<forall>i < length segs. length (ca ! i) = num_rows (chunk (segs ! i))
            \<and> (\<forall>j < num_rows (chunk (segs ! i)). ca ! i ! j =
                 (if j \<in> set (rows_arr ! i)
                  then sgn (compare_at (segs ! i) j target row_to_sort sof nff) else 0))"
  proof (intro allI impI conjI)
    fix i assume i: "i < length segs"
    then show "length (ca ! i) = num_rows (chunk (segs ! i))"
      using val assms(3) by simp
  next
    fix i j assume i: "i < length segs" and j: "j < num_rows (chunk (segs ! i))"
    show "ca ! i ! j = (if j \<in> set (rows_arr ! i)
                  then sgn (compare_at (segs ! i) j target row_to_sort sof nff) else 0)"
      using val i j assms(3) none [OF _ i, of j] by (cases "0 < length (order_by_columns target)") auto
  qed
  then show ?thesis using eq len by blast
qed

lemma negatives_sgn:
  "\<forall>j < rows. cr ! j = sgn (c j) \<Longrightarrow> negatives cr rows = filter (\<lambda>j. c j < (0::int)) [0..<rows]"
  unfolding negatives_def by (rule filter_cong) (auto simp: sgn_neg_iff)

lemma filter_call_ok_facts:
  assumes "filter_call_ok self segs n sof nff"
  shows "\<forall>i < length segs. length (order_by_columns (segs ! i)) = length (order_by_columns self)"
    and "\<forall>k < length (order_by_columns self). sof ! k \<noteq> 0"
    and "sum_list (map (\<lambda>i. num_rows (chunk (segs ! i))) [0..<length segs]) < 2 ^ 32"
  using assms map_nth_upt [of "\<lambda>seg. num_rows (chunk seg)" segs]
  by (auto simp: filter_call_ok_def list_all_length flags_ok_nonzero)

lemma first_pass_eq:
  assumes "filter_call_ok self segs n sof nff"
  shows "\<exists>ra ca.
      get_compare_results row_to_sort (order_by_columns self)
        (map (\<lambda>seg. all_rows (num_rows (chunk seg))) segs)
        (map (\<lambda>seg. vector_resize (num_rows (chunk seg)) 0 []) segs) segs sof nff = (ra, ca)
      \<and> length ca = length segs
      \<and> (\<forall>i < length segs. length (ca ! i) = num_rows (chunk (segs ! i))
            \<and> (\<forall>j < num_rows (chunk (segs ! i)).
                  ca ! i ! j = sgn (compare_at (segs ! i) j self row_to_sort sof nff)))"
proof -
  note f = filter_call_ok_facts [OF assms]
  obtain ra ca where
    eq: "get_compare_results row_to_sort (order_by_columns self)
        (map (\<lambda>seg. all_rows (num_rows (chunk seg))) segs)
        (map (\<lambda>seg. vector_resize (num_rows (chunk seg)) 0 []) segs) segs sof nff = (ra, ca)"
    and len: "length ca = length segs"
    and val: "\<forall>i < length segs. length (ca ! i) = num_rows (chunk (segs ! i))
            \<and> (\<forall>j < num_rows (chunk (segs ! i)). ca ! i ! j =
                 (if j \<in> set (map (\<lambda>seg. all_rows (num_rows (chunk seg))) segs ! i)
                  then sgn (compare_at (segs ! i) j self row_to_sort sof nff) else 0))"
    using compare_pass_zero_init [where rows_arr = "map (\<lambda>seg. all_rows (num_rows (chunk seg))) segs"
        and results_arr = "map (\<lambda>seg. vector_resize (num_rows (chunk seg)) 0 []) segs"
        and segs = segs and target = self and sof = sof and row_to_sort = row_to_sort and nff = nff]
      f(1,2)
    by auto
  show ?thesis
    using eq len val by auto
qed

lemma get_filter_array_single:
  assumes "filter_call_ok self segs 1 sof nff" and "ok (cb 0)"
  shows "get_filter_array self segs 1 fa0 sof nff l0 m0 cb =
    \<lparr>ret_status = OK,
     out_filter_array =
       map (\<lambda>i. map (\<lambda>j. if compare_at (segs ! i) j self 0 sof nff < 0
                          then BEFORE_LAST_RESULT else IN_LAST_RESULT)
                  [0..<num_rows (chunk (segs ! i))]) [0..<length segs],
     out_least_num =
       of_nat (sum_list (map (\<lambda>i. length (filter (\<lambda>j. compare_at (segs ! i) j self 0 sof nff < 0)
                                              [0..<num_rows (chunk (segs ! i))]))
                           [0..<length segs])),
     out_middle_num =
       of_nat (sum_list (map (\<lambda>i. num_rows (chunk (segs ! i))
                                   - length (filter (\<lambda>j. compare_at (segs ! i) j self 0 sof nff < 0)
                                              [0..<num_rows (chunk (segs ! i))]))
                           [0..<length segs])),
     compare_passes = [(0, map (\<lambda>seg. [0..<num_rows (chunk seg)]) segs)],
     memory_checks = [(0, OK)]\<rparr>"
proof -
  obtain ra ca where
    eq: "get_compare_results 0 (order_by_columns self)
        (map (\<lambda>seg. all_rows (num_rows (chunk seg))) segs)
        (map (\<lambda>seg. vector_resize (num_rows (chunk seg)) 0 []) segs) segs sof nff = (ra, ca)"
    and val: "\<forall>i < length segs. length (ca ! i) = num_rows (chunk (segs ! i))
            \<and> (\<forall>j < num_rows (chunk (segs ! i)).
                  ca ! i ! j = sgn (compare_at (segs ! i) j self 0 sof nff))"
    using first_pass_eq [OF assms(1), of 0] by blast
  have neg: "i < length segs \<Longrightarrow> negatives (ca ! i) (num_rows (chunk (segs ! i)))
          = filter (\<lambda>j. compare_at (segs ! i) j self 0 sof nff < 0) [0..<num_rows (chunk (segs ! i))]"
    for i
    using val by (intro negatives_sgn) simp
  have marks: "map (\<lambda>i. map (\<lambda>j. if ca ! i ! j < 0 then BEFORE_LAST_RESULT else IN_LAST_RESULT)
                [0..<num_rows (chunk (segs ! i))]) [0..<length segs]
      = map (\<lambda>i. map (\<lambda>j. if compare_at (segs ! i) j self 0 sof nff < 0
                          then BEFORE_LAST_RESULT else IN_LAST_RESULT)
                  [0..<num_rows (chunk (segs ! i))]) [0..<length segs]"
    using val by (auto simp: sgn_neg_iff)
  have cnt: "map (\<lambda>i. length (negatives (ca ! i) (num_rows (chunk (segs ! i))))) [0..<length segs]
      = map (\<lambda>i. length (filter (\<lambda>j. compare_at (segs ! i) j self 0 sof nff < 0)
                                  [0..<num_rows (chunk (segs ! i))])) [0..<length segs]"
    using neg by simp
  have rest: "map (\<lambda>i. num_rows (chunk (segs ! i))
                       - length (negatives (ca ! i) (num_rows (chunk (segs ! i))))) [0..<length segs]
      = map (\<lambda>i. num_rows (chunk (segs ! i))
                   - length (filter (\<lambda>j. compare_at (segs ! i) j self 0 sof nff < 0)
                                  [0..<num_rows (chunk (segs ! i))])) [0..<length segs]"
    using neg by simp
  have st: "cb 0 = OK" using assms(2) by (simp add: ok_def)
  show ?thesis
    unfolding get_filter_array_def Let_def
    using eq st
    by (simp add: size_t_pred_def mark_all_segments_eq ok_def marks cnt rest)
qed

lemma filter_call_ok_rows_bound:
  assumes "filter_call_ok self segs n sof nff" and "i < length segs"
  shows "num_rows (chunk (segs ! i)) < 2 ^ 32"
proof -
  have "num_rows (chunk (segs ! i)) \<le> sum_list (map (\<lambda>seg. num_rows (chunk seg)) segs)"
    by (rule member_le_sum_list) (use assms(2) in auto)
  then show ?thesis using assms(1) by (simp add: filter_call_ok_def)
qed

lemma length_filter_split:
  "length (filter P xs) = length (filter (\<lambda>x. P x \<and> Q x) xs) + length (filter (\<lambda>x. P x \<and> \<not> Q x) xs)"
  by (induction xs) auto

lemma get_filter_array_two_pass:
  fixes self :: "('a::ord) DataSegment"
  defines "rows \<equiv> \<lambda>segs i. num_rows (chunk (segs ! i))"
  defines "c \<equiv> \<lambda>self segs sof nff r i j. compare_at (segs ! i) j self r sof nff"
  assumes call: "filter_call_ok self segs n sof nff" and n: "1 < n"
    and cb: "ok (cb (of_nat (length segs) * 8
               + ucast (of_nat (sum_list (map (\<lambda>i. length (filter (\<lambda>j. c self segs sof nff (n - 1) i j < 0)
                                     [0..<rows segs i])) [0..<length segs])) :: 32 word) * 8))"
  shows "get_filter_array self segs n fa0 sof nff l0 m0 cb =
    \<lparr>ret_status = OK,
     out_filter_array =
       map (\<lambda>i. map (\<lambda>j. if c self segs sof nff (n - 1) i j < 0
                          then (if c self segs sof nff 0 i j < 0
                                then BEFORE_LAST_RESULT else IN_LAST_RESULT)
                          else vector_resize (rows segs i) 0
                                 (vector_resize (length segs) [] fa0 ! i) ! j)
                  [0..<rows segs i]) [0..<length segs],
     out_least_num =
       of_nat (sum_list (map (\<lambda>i. length (filter (\<lambda>j. c self segs sof nff (n - 1) i j < 0
                                                     \<and> c self segs sof nff 0 i j < 0)
                                              [0..<rows segs i])) [0..<length segs])),
     out_middle_num =
       of_nat (sum_list (map (\<lambda>i. length (filter (\<lambda>j. c self segs sof nff (n - 1) i j < 0
                                                     \<and> \<not> c self segs sof nff 0 i j < 0)
                                              [0..<rows segs i])) [0..<length segs])),
     compare_passes =
       [(n - 1, map (\<lambda>seg. [0..<num_rows (chunk seg)]) segs),
        (0, map (\<lambda>i. filter (\<lambda>j. c self segs sof nff (n - 1) i j < 0) [0..<rows segs i])
              [0..<length segs])],
     memory_checks =
       [(of_nat (length segs) * 8
           + ucast (of_nat (sum_list (map (\<lambda>i. length (filter (\<lambda>j. c self segs sof nff (n - 1) i j < 0)
                                     [0..<rows segs i])) [0..<length segs])) :: 32 word) * 8, OK)]\<rparr>"
proof -
  let ?N = "length segs"
  let ?rows = "\<lambda>i. num_rows (chunk (segs ! i))"
  let ?c1 = "\<lambda>i j. compare_at (segs ! i) j self (n - 1) sof nff"
  let ?c0 = "\<lambda>i j. compare_at (segs ! i) j self 0 sof nff"
  note f = filter_call_ok_facts [OF call]
  \<comment> \<open>the first pass\<close>
  obtain ra1 ca1 where
    p1: "get_compare_results (n - 1) (order_by_columns self)
        (map (\<lambda>seg. all_rows (num_rows (chunk seg))) segs)
        (map (\<lambda>seg. vector_resize (num_rows (chunk seg)) 0 []) segs) segs sof nff = (ra1, ca1)"
    and len1: "length ca1 = ?N"
    and val1: "\<forall>i < ?N. length (ca1 ! i) = ?rows i
            \<and> (\<forall>j < ?rows i. ca1 ! i ! j = sgn (?c1 i j))"
    using first_pass_eq [OF call, of "n - 1"] by blast
  have neg1: "i < ?N \<Longrightarrow> negatives (ca1 ! i) (?rows i) = filter (\<lambda>j. ?c1 i j < 0) [0..<?rows i]" for i
    using val1 by (intro negatives_sgn) simp
  \<comment> \<open>marking the rows before the last row, and the sizes for the second pass\<close>
  let ?fa1 = "map (\<lambda>i. map (\<lambda>j. if ?c1 i j < 0 then IN_LAST_RESULT
                         else vector_resize (?rows i) 0 (vector_resize ?N [] fa0 ! i) ! j)
                [0..<?rows i]) [0..<?N]"
  let ?m1 = "of_nat (sum_list (map (\<lambda>i. length (filter (\<lambda>j. ?c1 i j < 0) [0..<?rows i])) [0..<?N])) :: 32 word"
  let ?fsa = "map (\<lambda>i. of_nat (length (filter (\<lambda>j. ?c1 i j < 0) [0..<?rows i]))) [0..<?N] :: 64 word list"
  have m1: "mark_in_segments segs ca1 fa0 = (?fa1, ?m1, ?fsa)"
  proof -
    have a: "map (\<lambda>i. map (\<lambda>j. if ca1 ! i ! j < 0 then IN_LAST_RESULT
                         else vector_resize (?rows i) 0 (vector_resize ?N [] fa0 ! i) ! j)
                [0..<?rows i]) [0..<?N] = ?fa1"
      using val1 by (auto simp: sgn_neg_iff)
    have b: "map (\<lambda>i. length (negatives (ca1 ! i) (?rows i))) [0..<?N]
           = map (\<lambda>i. length (filter (\<lambda>j. ?c1 i j < 0) [0..<?rows i])) [0..<?N]"
      using neg1 by simp
    have c: "map (\<lambda>i. of_nat (length (negatives (ca1 ! i) (?rows i)))) [0..<?N] = ?fsa"
      using neg1 by simp
    show ?thesis
      unfolding mark_in_segments_eq [OF f(3)] a b c ..
  qed
  \<comment> \<open>the candidate rows of the second pass\<close>
  let ?rows2 = "map (\<lambda>i. filter (\<lambda>j. ?c1 i j < 0) [0..<?rows i]) [0..<?N]"
  let ?zero = "map (\<lambda>i. replicate (?rows i) (0::int)) [0..<?N]"
  have col: "collect_segments segs ca1 ?fsa = (?rows2, ?zero)"
  proof -
    have u: "\<forall>i < ?N. unat (?fsa ! i) = length (negatives (ca1 ! i) (?rows i))"
    proof (intro allI impI)
      fix i assume i: "i < ?N"
      have "length (filter (\<lambda>j. ?c1 i j < 0) [0..<?rows i]) \<le> ?rows i"
        by (metis diff_zero length_filter_le length_upt)
      also have "\<dots> < 2 ^ 32" using filter_call_ok_rows_bound [OF call i] .
      finally have "length (filter (\<lambda>j. ?c1 i j < 0) [0..<?rows i]) < 2 ^ 64"
        by simp
      then show "unat (?fsa ! i) = length (negatives (ca1 ! i) (?rows i))"
        using i neg1 [OF i] by (simp add: unat_of_nat)
    qed
    have l: "\<forall>i < ?N. length (ca1 ! i) = ?rows i" using val1 by simp
    have b: "map (\<lambda>i. negatives (ca1 ! i) (?rows i)) [0..<?N] = ?rows2"
      using neg1 by simp
    show ?thesis
      unfolding collect_segments_eq [OF len1 l u] b ..
  qed
  \<comment> \<open>the second pass\<close>
  obtain ra3 ca3 where
    p2: "get_compare_results 0 (order_by_columns self) ?rows2 ?zero segs sof nff = (ra3, ca3)"
    and len3: "length ca3 = ?N"
    and val3: "\<forall>i < ?N. length (ca3 ! i) = ?rows i
            \<and> (\<forall>j < ?rows i. ca3 ! i ! j =
                 (if j \<in> set (?rows2 ! i) then sgn (?c0 i j) else 0))"
    using compare_pass_zero_init [where rows_arr = ?rows2 and results_arr = ?zero
        and segs = segs and target = self and sof = sof and row_to_sort = 0 and nff = nff]
      f(1,2)
    by auto
  have v3: "i < ?N \<Longrightarrow> j < ?rows i \<Longrightarrow> ca3 ! i ! j < 0 \<longleftrightarrow> ?c1 i j < 0 \<and> ?c0 i j < 0" for i j
    using val3 by (auto simp: sgn_neg_iff)
  have neg3: "i < ?N \<Longrightarrow> negatives (ca3 ! i) (?rows i)
                = filter (\<lambda>j. ?c1 i j < 0 \<and> ?c0 i j < 0) [0..<?rows i]" for i
    unfolding negatives_def using v3 by (intro filter_cong) auto
  \<comment> \<open>marking the rows before the first row\<close>
  let ?fa2 = "map (\<lambda>i. map (\<lambda>j. if ?c1 i j < 0
                          then (if ?c0 i j < 0 then BEFORE_LAST_RESULT else IN_LAST_RESULT)
                          else vector_resize (?rows i) 0 (vector_resize ?N [] fa0 ! i) ! j)
                  [0..<?rows i]) [0..<?N]"
  let ?l2 = "of_nat (sum_list (map (\<lambda>i. length (filter (\<lambda>j. ?c1 i j < 0 \<and> ?c0 i j < 0)
                                              [0..<?rows i])) [0..<?N])) :: 32 word"
  have mb: "mark_before_segments segs ca3 ?fa1 = (?fa2, ?l2)"
  proof -
    have l1: "length ?fa1 = ?N" by simp
    have l2: "\<forall>i < ?N. length (?fa1 ! i) = ?rows i" by simp
    have a: "map (\<lambda>i. map (\<lambda>j. if ca3 ! i ! j < 0 then BEFORE_LAST_RESULT else ?fa1 ! i ! j)
                [0..<?rows i]) [0..<?N] = ?fa2"
      using v3 by auto
    have b: "map (\<lambda>i. length (negatives (ca3 ! i) (?rows i))) [0..<?N]
           = map (\<lambda>i. length (filter (\<lambda>j. ?c1 i j < 0 \<and> ?c0 i j < 0) [0..<?rows i])) [0..<?N]"
      using neg3 by simp
    show ?thesis
      unfolding mark_before_segments_eq [OF l1 l2] a b ..
  qed
  \<comment> \<open>the counter of the rows in between\<close>
  have split: "sum_list (map (\<lambda>i. length (filter (\<lambda>j. ?c1 i j < 0) [0..<?rows i])) [0..<?N])
      = sum_list (map (\<lambda>i. length (filter (\<lambda>j. ?c1 i j < 0 \<and> ?c0 i j < 0) [0..<?rows i])) [0..<?N])
      + sum_list (map (\<lambda>i. length (filter (\<lambda>j. ?c1 i j < 0 \<and> \<not> ?c0 i j < 0) [0..<?rows i])) [0..<?N])"
  proof -
    have pt: "length (filter (\<lambda>j. ?c1 i j < 0) xs)
        = length (filter (\<lambda>j. ?c1 i j < 0 \<and> ?c0 i j < 0) xs)
        + length (filter (\<lambda>j. ?c1 i j < 0 \<and> \<not> ?c0 i j < 0) xs)" for i xs
      by (rule length_filter_split)
    show ?thesis by (simp only: pt sum_list_addf)
  qed
  have mid: "?m1 - ?l2 = of_nat (sum_list (map (\<lambda>i. length (filter (\<lambda>j. ?c1 i j < 0 \<and> \<not> ?c0 i j < 0)
                                              [0..<?rows i])) [0..<?N]))"
    unfolding split by simp
  have st: "cb (of_nat ?N * 8 + ucast ?m1 * 8) = OK"
    using cb by (simp add: ok_def rows_def c_def)
  have n1: "n \<noteq> 1" "size_t_pred n = n - 1" using n by (simp_all add: size_t_pred_def)
  show ?thesis
    unfolding get_filter_array_def Let_def rows_def c_def n1 p1 prod.case m1 st
      col p2 mb mid
    using n1(1) by (simp add: ok_def)
qed

section \<open>Properties of the top-N filter\<close>

lemma count_list_map_upt:
  "count_list (map g xs) v = length (filter (\<lambda>x. g x = v) xs)"
  by (induction xs) auto

lemma marks_distinct:
  "BEFORE_LAST_RESULT \<noteq> IN_LAST_RESULT" "BEFORE_LAST_RESULT \<noteq> 0" "IN_LAST_RESULT \<noteq> 0"
  "IN_LAST_RESULT \<noteq> BEFORE_LAST_RESULT" "0 \<noteq> BEFORE_LAST_RESULT" "0 \<noteq> IN_LAST_RESULT"
  by (simp_all add: BEFORE_LAST_RESULT_def IN_LAST_RESULT_def)

lemma count_marks:
  "count_list (map (\<lambda>j. if p j then (if q j then BEFORE_LAST_RESULT else IN_LAST_RESULT) else 0) xs)
     BEFORE_LAST_RESULT = length (filter (\<lambda>j. p j \<and> q j) xs)"
  "count_list (map (\<lambda>j. if p j then (if q j then BEFORE_LAST_RESULT else IN_LAST_RESULT) else 0) xs)
     IN_LAST_RESULT = length (filter (\<lambda>j. p j \<and> \<not> q j) xs)"
  by (induction xs) (auto simp: marks_distinct)

lemma sum_filter_le_rows:
  "sum_list (map (\<lambda>i. length (filter (P i) [0..<rows i])) [0..<n]) \<le> sum_list (map rows [0..<n])"
  by (intro sum_list_upt_mono) (metis diff_zero length_filter_le length_upt)

lemma unat_counter:
  assumes "filter_call_ok self segs n sof nff"
  shows "unat (of_nat (sum_list (map (\<lambda>i. length (filter (P i) [0..<num_rows (chunk (segs ! i))]))
                                  [0..<length segs])) :: 32 word)
         = sum_list (map (\<lambda>i. length (filter (P i) [0..<num_rows (chunk (segs ! i))]))
                      [0..<length segs])"
proof -
  have "sum_list (map (\<lambda>i. length (filter (P i) [0..<num_rows (chunk (segs ! i))])) [0..<length segs])
          \<le> sum_list (map (\<lambda>i. num_rows (chunk (segs ! i))) [0..<length segs])"
    by (rule sum_filter_le_rows)
  also have "\<dots> < 2 ^ 32" using filter_call_ok_facts(3) [OF assms] .
  finally show ?thesis by (simp add: unat_of_nat)
qed

text \<open>
  C2, as the code has it. For a call within the documented ranges, with more than one row
  to sort, a fresh \<open>filter_array\<close> and a memory callback that returns OK, every candidate
  row falls in exactly one of three classes. It is marked \<open>BEFORE_LAST_RESULT\<close> exactly
  when it orders strictly before the boundary row (index \<open>number_of_rows_to_sort - 1\<close>) and
  strictly before the first row (index 0) of the calling segment; \<open>IN_LAST_RESULT\<close>
  exactly when it orders strictly before the boundary row but not strictly before the
  first row; and it stays unmarked (0) exactly when it does not order strictly before the
  boundary row, so a row tied with the boundary row is discarded. \<open>least_num\<close> is the
  number of \<open>BEFORE_LAST_RESULT\<close> marks and \<open>middle_num\<close> the number of
  \<open>IN_LAST_RESULT\<close> marks.
\<close>

theorem get_filter_array_classes:
  fixes self :: "('a::ord) DataSegment" and least_num middle_num :: "32 word"
  assumes "filter_call_ok self data_segments number_of_rows_to_sort sort_order_flags null_first_flags"
    and "1 < number_of_rows_to_sort"
    and "\<forall>bytes. ok (consume_and_check_memory_limit bytes)"
  defines "res \<equiv> get_filter_array self data_segments number_of_rows_to_sort [] sort_order_flags
                    null_first_flags least_num middle_num consume_and_check_memory_limit"
  shows "ret_status res = OK
    \<and> length (out_filter_array res) = length data_segments
    \<and> (\<forall>i < length data_segments.
          length (out_filter_array res ! i) = num_rows (chunk (data_segments ! i))
          \<and> (\<forall>j < num_rows (chunk (data_segments ! i)).
                (out_filter_array res ! i ! j = BEFORE_LAST_RESULT \<longleftrightarrow>
                   compare_at (data_segments ! i) j self (number_of_rows_to_sort - 1)
                     sort_order_flags null_first_flags < 0
                   \<and> compare_at (data_segments ! i) j self 0 sort_order_flags null_first_flags < 0)
              \<and> (out_filter_array res ! i ! j = IN_LAST_RESULT \<longleftrightarrow>
                   compare_at (data_segments ! i) j self (number_of_rows_to_sort - 1)
                     sort_order_flags null_first_flags < 0
                   \<and> \<not> compare_at (data_segments ! i) j self 0 sort_order_flags null_first_flags < 0)
              \<and> (out_filter_array res ! i ! j = 0 \<longleftrightarrow>
                   \<not> compare_at (data_segments ! i) j self (number_of_rows_to_sort - 1)
                       sort_order_flags null_first_flags < 0)))
    \<and> unat (out_least_num res)
        = sum_list (map (\<lambda>marks. count_list marks BEFORE_LAST_RESULT) (out_filter_array res))
    \<and> unat (out_middle_num res)
        = sum_list (map (\<lambda>marks. count_list marks IN_LAST_RESULT) (out_filter_array res))"
proof -
  let ?c1 = "\<lambda>i j. compare_at (data_segments ! i) j self (number_of_rows_to_sort - 1)
                      sort_order_flags null_first_flags"
  let ?c0 = "\<lambda>i j. compare_at (data_segments ! i) j self 0 sort_order_flags null_first_flags"
  let ?rows = "\<lambda>i. num_rows (chunk (data_segments ! i))"
  have E: "res = \<lparr>ret_status = OK,
     out_filter_array =
       map (\<lambda>i. map (\<lambda>j. if ?c1 i j < 0
                          then (if ?c0 i j < 0 then BEFORE_LAST_RESULT else IN_LAST_RESULT)
                          else vector_resize (?rows i) 0
                                 (vector_resize (length data_segments) [] [] ! i) ! j)
                  [0..<?rows i]) [0..<length data_segments],
     out_least_num =
       of_nat (sum_list (map (\<lambda>i. length (filter (\<lambda>j. ?c1 i j < 0 \<and> ?c0 i j < 0)
                                              [0..<?rows i])) [0..<length data_segments])),
     out_middle_num =
       of_nat (sum_list (map (\<lambda>i. length (filter (\<lambda>j. ?c1 i j < 0 \<and> \<not> ?c0 i j < 0)
                                              [0..<?rows i])) [0..<length data_segments])),
     compare_passes =
       [(number_of_rows_to_sort - 1, map (\<lambda>seg. [0..<num_rows (chunk seg)]) data_segments),
        (0, map (\<lambda>i. filter (\<lambda>j. ?c1 i j < 0) [0..<?rows i]) [0..<length data_segments])],
     memory_checks =
       [(of_nat (length data_segments) * 8
           + ucast (of_nat (sum_list (map (\<lambda>i. length (filter (\<lambda>j. ?c1 i j < 0)
                                     [0..<?rows i])) [0..<length data_segments])) :: 32 word) * 8, OK)]\<rparr>"
    unfolding res_def using assms(3) by (intro get_filter_array_two_pass [OF assms(1,2)]) simp
  have fa: "out_filter_array res =
       map (\<lambda>i. map (\<lambda>j. if ?c1 i j < 0
                          then (if ?c0 i j < 0 then BEFORE_LAST_RESULT else IN_LAST_RESULT)
                          else 0)
                  [0..<?rows i]) [0..<length data_segments]"
    by (subst E) (simp cong: map_cong)
  have least: "unat (out_least_num res)
        = sum_list (map (\<lambda>marks. count_list marks BEFORE_LAST_RESULT) (out_filter_array res))"
    unfolding fa by (subst E)
      (simp add: unat_counter [OF assms(1)] o_def count_marks)
  have middle: "unat (out_middle_num res)
        = sum_list (map (\<lambda>marks. count_list marks IN_LAST_RESULT) (out_filter_array res))"
    unfolding fa by (subst E)
      (simp add: unat_counter [OF assms(1)] o_def count_marks)
  have marks: "\<forall>i < length data_segments.
          length (out_filter_array res ! i) = ?rows i
          \<and> (\<forall>j < ?rows i.
                (out_filter_array res ! i ! j = BEFORE_LAST_RESULT \<longleftrightarrow> ?c1 i j < 0 \<and> ?c0 i j < 0)
              \<and> (out_filter_array res ! i ! j = IN_LAST_RESULT \<longleftrightarrow> ?c1 i j < 0 \<and> \<not> ?c0 i j < 0)
              \<and> (out_filter_array res ! i ! j = 0 \<longleftrightarrow> \<not> ?c1 i j < 0))"
    unfolding fa by (simp add: marks_distinct)
  have "ret_status res = OK" by (subst E) simp
  moreover have "length (out_filter_array res) = length data_segments"
    unfolding fa by simp
  ultimately show ?thesis using least middle marks by blast
qed

lemma example_call_ok:
  "filter_call_ok boundary_segment [candidate_segment] 2 [1] [- 1]"
  "filter_call_ok boundary_segment [candidate_segment] 1 [1] [- 1]"
  by (simp_all add: filter_call_ok_def segment_ok_def flags_ok_def num_rows_def
        boundary_segment_def candidate_segment_def single_key_segment_def
        DataSegment_new_def DataSegment_init_def DataSegment_empty_def slot_ref_def)

text \<open>
  An instance: with the boundary rows 1 and 5 and two rows to sort, the candidate 0 is
  marked \<open>BEFORE_LAST_RESULT\<close>, the candidate 3 \<open>IN_LAST_RESULT\<close>, and the candidate 5
  stays unmarked.
\<close>

theorem get_filter_array_classes_witness:
  "filter_call_ok boundary_segment [candidate_segment] 2 [1] [- 1]
   \<and> out_filter_array (get_filter_array boundary_segment [candidate_segment] 2 [] [1] [- 1]
        0 0 (\<lambda>bytes. OK)) ! 0 ! 2 = BEFORE_LAST_RESULT
   \<and> out_filter_array (get_filter_array boundary_segment [candidate_segment] 2 [] [1] [- 1]
        0 0 (\<lambda>bytes. OK)) ! 0 ! 0 = IN_LAST_RESULT
   \<and> out_filter_array (get_filter_array boundary_segment [candidate_segment] 2 [] [1] [- 1]
        0 0 (\<lambda>bytes. OK)) ! 0 ! 1 = 0"
proof -
  let ?res = "get_filter_array boundary_segment [candidate_segment] 2 [] [1] [- 1]
        0 0 (\<lambda>bytes. OK)"
  note call = example_call_ok(1)
  have n: "1 < (2::nat)" by simp
  have cb: "\<forall>bytes. ok ((\<lambda>bytes. OK) bytes)" by (simp add: ok_def)
  note T = get_filter_array_classes [OF call n cb, of 0 0]
  have i: "0 < length [candidate_segment]" by simp
  have rows: "num_rows (chunk ([candidate_segment] ! 0)) = 4" by code_simp
  note M = T [THEN conjunct2, THEN conjunct2, THEN conjunct1, rule_format, OF i,
      THEN conjunct2, rule_format]
  have c00: "compare_at ([candidate_segment] ! 0) 0 boundary_segment (2 - 1) [1] [- 1] < 0"
    and c01: "\<not> compare_at ([candidate_segment] ! 0) 0 boundary_segment 0 [1] [- 1] < 0"
    and c10: "\<not> compare_at ([candidate_segment] ! 0) 1 boundary_segment (2 - 1) [1] [- 1] < 0"
    and c20: "compare_at ([candidate_segment] ! 0) 2 boundary_segment (2 - 1) [1] [- 1] < 0"
    and c21: "compare_at ([candidate_segment] ! 0) 2 boundary_segment 0 [1] [- 1] < 0"
    by code_simp+
  have "out_filter_array ?res ! 0 ! 2 = BEFORE_LAST_RESULT"
    using M [of 2] rows c20 c21 by simp
  moreover have "out_filter_array ?res ! 0 ! 0 = IN_LAST_RESULT"
    using M [of 0] rows c00 c01 by simp
  moreover have "out_filter_array ?res ! 0 ! 1 = 0"
    using M [of 1] rows c10 by simp
  ultimately show ?thesis using call by simp
qed

text \<open>
  C2 as stated fails: with boundary rows 1 and 5 and two rows to sort, the candidate 3
  orders strictly before the boundary row 5 but is not marked \<open>BEFORE_LAST_RESULT\<close>, and
  the candidate 5 is tied with the boundary row but is not marked \<open>IN_LAST_RESULT\<close>.
\<close>

theorem get_filter_array_boundary_classes_counterexample:
  "filter_call_ok boundary_segment [candidate_segment] 2 [1] [- 1]
   \<and> compare_at candidate_segment 0 boundary_segment (2 - 1) [1] [- 1] < 0
   \<and> out_filter_array (get_filter_array boundary_segment [candidate_segment] 2 [] [1] [- 1]
        0 0 (\<lambda>bytes. OK)) ! 0 ! 0 \<noteq> BEFORE_LAST_RESULT
   \<and> compare_at candidate_segment 1 boundary_segment (2 - 1) [1] [- 1] = 0
   \<and> out_filter_array (get_filter_array boundary_segment [candidate_segment] 2 [] [1] [- 1]
        0 0 (\<lambda>bytes. OK)) ! 0 ! 1 \<noteq> IN_LAST_RESULT"
proof -
  have "compare_at candidate_segment 0 boundary_segment (2 - 1) [1] [- 1] < 0
   \<and> out_filter_array (get_filter_array boundary_segment [candidate_segment] 2 [] [1] [- 1]
        0 0 (\<lambda>bytes. OK)) ! 0 ! 0 \<noteq> BEFORE_LAST_RESULT
   \<and> compare_at candidate_segment 1 boundary_segment (2 - 1) [1] [- 1] = 0
   \<and> out_filter_array (get_filter_array boundary_segment [candidate_segment] 2 [] [1] [- 1]
        0 0 (\<lambda>bytes. OK)) ! 0 ! 1 \<noteq> IN_LAST_RESULT"
    by code_simp
  then show ?thesis using example_call_ok(1) by simp
qed

lemma sum_rows_split:
  "sum_list (map (\<lambda>i. length (filter (P i) [0..<rows i])) [0..<n])
     + sum_list (map (\<lambda>i. rows i - length (filter (P i) [0..<rows i])) [0..<n])
   = sum_list (map rows [0..<n])"
proof -
  have "length (filter (P i) [0..<rows i]) \<le> rows i" for i
    by (metis diff_zero length_filter_le length_upt)
  then have "map (\<lambda>i. length (filter (P i) [0..<rows i]) + (rows i - length (filter (P i) [0..<rows i]))) [0..<n]
      = map rows [0..<n]"
    by simp
  then show ?thesis by (simp only: sum_list_addf [symmetric])
qed

text \<open>
  C10. For a call within the documented ranges with one row to sort and a memory callback
  that returns OK, every row of every segment gets a mark that is not 0:
  \<open>BEFORE_LAST_RESULT\<close> when it orders strictly before the single boundary row (index 0)
  and \<open>IN_LAST_RESULT\<close> otherwise; and \<open>least_num + middle_num\<close> is the number of rows
  of all segments.
\<close>

theorem get_filter_array_single_row_marks_all:
  fixes self :: "('a::ord) DataSegment" and least_num middle_num :: "32 word"
    and filter_array :: "8 word list list"
  assumes "filter_call_ok self data_segments 1 sort_order_flags null_first_flags"
    and "ok (consume_and_check_memory_limit 0)"
  defines "res \<equiv> get_filter_array self data_segments 1 filter_array sort_order_flags
                    null_first_flags least_num middle_num consume_and_check_memory_limit"
  shows "ret_status res = OK
    \<and> length (out_filter_array res) = length data_segments
    \<and> (\<forall>i < length data_segments.
          length (out_filter_array res ! i) = num_rows (chunk (data_segments ! i))
          \<and> (\<forall>j < num_rows (chunk (data_segments ! i)).
                out_filter_array res ! i ! j
                  = (if compare_at (data_segments ! i) j self 0 sort_order_flags null_first_flags < 0
                     then BEFORE_LAST_RESULT else IN_LAST_RESULT)
                \<and> out_filter_array res ! i ! j \<noteq> 0))
    \<and> unat (out_least_num res) + unat (out_middle_num res)
        = sum_list (map (\<lambda>seg. num_rows (chunk seg)) data_segments)"
proof -
  let ?c0 = "\<lambda>i j. compare_at (data_segments ! i) j self 0 sort_order_flags null_first_flags"
  let ?rows = "\<lambda>i. num_rows (chunk (data_segments ! i))"
  let ?A = "sum_list (map (\<lambda>i. length (filter (\<lambda>j. ?c0 i j < 0) [0..<?rows i]))
                        [0..<length data_segments])"
  let ?B = "sum_list (map (\<lambda>i. ?rows i - length (filter (\<lambda>j. ?c0 i j < 0) [0..<?rows i]))
                        [0..<length data_segments])"
  note E = get_filter_array_single [where cb = consume_and_check_memory_limit
      and ?fa0.0 = filter_array and ?l0.0 = least_num and ?m0.0 = middle_num, OF assms(1,2)]
  have fa: "out_filter_array res =
       map (\<lambda>i. map (\<lambda>j. if ?c0 i j < 0 then BEFORE_LAST_RESULT else IN_LAST_RESULT)
                  [0..<?rows i]) [0..<length data_segments]"
    unfolding res_def by (subst E) simp
  have total: "?A + ?B = sum_list (map (\<lambda>seg. num_rows (chunk seg)) data_segments)"
    using sum_rows_split [of "\<lambda>i j. ?c0 i j < 0" ?rows "length data_segments"]
      map_nth_upt [of "\<lambda>seg. num_rows (chunk seg)" data_segments]
    by simp
  have small: "?A + ?B < 2 ^ 32"
    using total assms(1) by (simp add: filter_call_ok_def)
  have "unat (out_least_num res) = ?A"
    unfolding res_def using small by (subst E) (simp add: unat_of_nat)
  moreover have "unat (out_middle_num res) = ?B"
    unfolding res_def using small by (subst E) (simp add: unat_of_nat)
  ultimately have counters: "unat (out_least_num res) + unat (out_middle_num res)
        = sum_list (map (\<lambda>seg. num_rows (chunk seg)) data_segments)"
    using total by simp
  have marks: "\<forall>i < length data_segments.
          length (out_filter_array res ! i) = ?rows i
          \<and> (\<forall>j < ?rows i.
                out_filter_array res ! i ! j
                  = (if ?c0 i j < 0 then BEFORE_LAST_RESULT else IN_LAST_RESULT)
                \<and> out_filter_array res ! i ! j \<noteq> 0)"
    unfolding fa by (simp add: marks_distinct)
  have "ret_status res = OK" unfolding res_def by (subst E) simp
  moreover have "length (out_filter_array res) = length data_segments"
    unfolding fa by simp
  ultimately show ?thesis using counters marks by blast
qed

text \<open>
  An instance: with one row to sort all four candidates are marked, 0 as
  \<open>BEFORE_LAST_RESULT\<close> and 5 as \<open>IN_LAST_RESULT\<close>.
\<close>

theorem get_filter_array_single_row_marks_all_witness:
  "out_filter_array (get_filter_array boundary_segment [candidate_segment] 1 [] [1] [- 1]
        0 0 (\<lambda>bytes. OK)) ! 0 ! 2 = BEFORE_LAST_RESULT
   \<and> out_filter_array (get_filter_array boundary_segment [candidate_segment] 1 [] [1] [- 1]
        0 0 (\<lambda>bytes. OK)) ! 0 ! 1 = IN_LAST_RESULT
   \<and> unat (out_least_num (get_filter_array boundary_segment [candidate_segment] 1 [] [1] [- 1]
        0 0 (\<lambda>bytes. OK)))
     + unat (out_middle_num (get_filter_array boundary_segment [candidate_segment] 1 [] [1] [- 1]
        0 0 (\<lambda>bytes. OK))) = 4"
proof -
  let ?res = "get_filter_array boundary_segment [candidate_segment] 1 [] [1] [- 1]
        0 0 (\<lambda>bytes. OK)"
  have cb: "ok ((\<lambda>bytes. OK) 0)" by (simp add: ok_def)
  note T = get_filter_array_single_row_marks_all [where filter_array = "[]"
      and least_num = 0 and middle_num = 0
      and consume_and_check_memory_limit = "\<lambda>bytes. OK", OF example_call_ok(2) cb]
  have i: "0 < length [candidate_segment]" by simp
  have rows: "num_rows (chunk ([candidate_segment] ! 0)) = 4" by code_simp
  have total: "sum_list (map (\<lambda>seg. num_rows (chunk seg)) [candidate_segment]) = 4"
    using rows by simp
  note M = T [THEN conjunct2, THEN conjunct2, THEN conjunct1, rule_format, OF i,
      THEN conjunct2, rule_format]
  have c2: "compare_at ([candidate_segment] ! 0) 2 boundary_segment 0 [1] [- 1] < 0"
    and c1: "\<not> compare_at ([candidate_segment] ! 0) 1 boundary_segment 0 [1] [- 1] < 0"
    by code_simp+
  have "out_filter_array ?res ! 0 ! 2 = BEFORE_LAST_RESULT"
    using M [of 2] rows c2 by simp
  moreover have "out_filter_array ?res ! 0 ! 1 = IN_LAST_RESULT"
    using M [of 1] rows c1 by simp
  moreover have "unat (out_least_num ?res) + unat (out_middle_num ?res) = 4"
    using T [THEN conjunct2, THEN conjunct2, THEN conjunct2] total by simp
  ultimately show ?thesis by simp
qed

text \<open>
  C4, as the code has it. For a call within the documented ranges, with more than one row
  to sort and a memory callback that returns OK, there are exactly two comparison passes:
  the first compares every row of every segment with row \<open>number_of_rows_to_sort - 1\<close>,
  the second compares with row 0 exactly the rows whose first comparison was negative,
  that is the rows that order strictly before row \<open>number_of_rows_to_sort - 1\<close>.
\<close>

theorem get_filter_array_two_passes:
  fixes self :: "('a::ord) DataSegment"
  assumes "filter_call_ok self data_segments number_of_rows_to_sort sort_order_flags null_first_flags"
    and "1 < number_of_rows_to_sort"
    and "\<forall>bytes. ok (consume_and_check_memory_limit bytes)"
  shows "compare_passes (get_filter_array self data_segments number_of_rows_to_sort filter_array
            sort_order_flags null_first_flags least_num middle_num consume_and_check_memory_limit)
    = [(number_of_rows_to_sort - 1, map (\<lambda>seg. [0..<num_rows (chunk seg)]) data_segments),
       (0, map (\<lambda>seg. filter (\<lambda>j. compare_at seg j self (number_of_rows_to_sort - 1)
                                    sort_order_flags null_first_flags < 0)
                        [0..<num_rows (chunk seg)]) data_segments)]"
proof -
  have cb: "ok (consume_and_check_memory_limit b)" for b using assms(3) by simp
  have "map (\<lambda>i. filter (\<lambda>j. compare_at (data_segments ! i) j self (number_of_rows_to_sort - 1)
                                    sort_order_flags null_first_flags < 0)
                        [0..<num_rows (chunk (data_segments ! i))]) [0..<length data_segments]
      = map (\<lambda>seg. filter (\<lambda>j. compare_at seg j self (number_of_rows_to_sort - 1)
                                    sort_order_flags null_first_flags < 0)
                        [0..<num_rows (chunk seg)]) data_segments"
    by (rule map_nth_upt)
  then show ?thesis
    by (subst get_filter_array_two_pass [where cb = consume_and_check_memory_limit,
          OF assms(1,2) cb]) simp
qed

text \<open>
  An instance: the second pass compares the candidates 3 and 0, rows 0 and 2.
\<close>

theorem get_filter_array_two_passes_witness:
  "compare_passes (get_filter_array boundary_segment [candidate_segment] 2 [] [1] [- 1]
        0 0 (\<lambda>bytes. OK)) = [(1, [[0, 1, 2, 3]]), (0, [[0, 2]])]"
proof -
  have cb: "\<forall>bytes. ok ((\<lambda>bytes. OK) bytes)" by (simp add: ok_def)
  have n: "1 < (2::nat)" by simp
  have rows: "num_rows (chunk candidate_segment) = 4" by code_simp
  have f: "filter (\<lambda>j. compare_at candidate_segment j boundary_segment (2 - 1) [1] [- 1] < 0)
             [0, 1, 2, 3] = [0, 2]"
    by code_simp
  have u: "[0..<4] = [0, 1, 2, 3]" by code_simp
  show ?thesis
    using get_filter_array_two_passes [OF example_call_ok(1) n cb, of "[]" 0 0] rows f u
    by simp
qed

text \<open>
  C4 as stated fails: with boundary rows 1 and 5, the second pass compares the candidates
  3 and 0 (rows 0 and 2), which are not tied with the boundary row 5, and does not
  compare the candidate 5 (row 1), which is tied with it.
\<close>

theorem get_filter_array_second_pass_counterexample:
  "compare_passes (get_filter_array boundary_segment [candidate_segment] 2 [] [1] [- 1]
        0 0 (\<lambda>bytes. OK)) = [(1, [[0, 1, 2, 3]]), (0, [[0, 2]])]
   \<and> compare_at candidate_segment 0 boundary_segment 1 [1] [- 1] \<noteq> 0
   \<and> compare_at candidate_segment 1 boundary_segment 1 [1] [- 1] = 0
   \<and> filter_call_ok boundary_segment [candidate_segment] 2 [1] [- 1]"
proof -
  have "compare_passes (get_filter_array boundary_segment [candidate_segment] 2 [] [1] [- 1]
        0 0 (\<lambda>bytes. OK)) = [(1, [[0, 1, 2, 3]]), (0, [[0, 2]])]
   \<and> compare_at candidate_segment 0 boundary_segment 1 [1] [- 1] \<noteq> 0
   \<and> compare_at candidate_segment 1 boundary_segment 1 [1] [- 1] = 0"
    by code_simp
  then show ?thesis using example_call_ok(1) by simp
qed

text \<open>
  C6. Every call of \<open>get_filter_array\<close> invokes the memory callback exactly once. If that
  invocation returns a status that is not OK, the call returns this status and has made
  only the first comparison pass; if it returns OK, the call returns OK.
\<close>

theorem get_filter_array_memory_limit:
  fixes self :: "('a::ord) DataSegment" and data_segments :: "'a DataSegment list"
    and number_of_rows_to_sort :: nat and filter_array :: "8 word list list"
    and sort_order_flags null_first_flags :: "int list" and least_num middle_num :: "32 word"
    and consume_and_check_memory_limit :: "64 word \<Rightarrow> Status"
  defines "res \<equiv> get_filter_array self data_segments number_of_rows_to_sort filter_array
                    sort_order_flags null_first_flags least_num middle_num
                    consume_and_check_memory_limit"
  shows "(\<exists>bytes. memory_checks res = [(bytes, consume_and_check_memory_limit bytes)])
    \<and> (\<forall>(bytes, st) \<in> set (memory_checks res).
          \<not> ok st \<longrightarrow> ret_status res = st \<and> length (compare_passes res) = 1)
    \<and> ((\<forall>(bytes, st) \<in> set (memory_checks res). ok st) \<longrightarrow> ret_status res = OK)"
  unfolding res_def get_filter_array_def
  by (auto simp: Let_def ok_def split: prod.splits)

text \<open>
  An instance: a callback that refuses every request but the empty one makes the call
  with two rows to sort fail with its status after the first pass; a callback that grants
  every request lets it return OK.
\<close>

theorem get_filter_array_memory_limit_witness:
  "ret_status (get_filter_array boundary_segment [candidate_segment] 2 [] [1] [- 1] 0 0
      (\<lambda>bytes. if bytes = 0 then OK else MemLimitExceeded)) = MemLimitExceeded
   \<and> length (compare_passes (get_filter_array boundary_segment [candidate_segment] 2 [] [1] [- 1]
      0 0 (\<lambda>bytes. if bytes = 0 then OK else MemLimitExceeded))) = 1
   \<and> ret_status (get_filter_array boundary_segment [candidate_segment] 2 [] [1] [- 1] 0 0
      (\<lambda>bytes. OK)) = OK"
proof -
  let ?fail = "\<lambda>bytes :: 64 word. if bytes = 0 then OK else MemLimitExceeded"
  let ?r1 = "get_filter_array boundary_segment [candidate_segment] 2 [] [1] [- 1] 0 0 ?fail"
  let ?r2 = "get_filter_array boundary_segment [candidate_segment] 2 [] [1] [- 1] 0 0 (\<lambda>bytes. OK)"
  have m1: "memory_checks ?r1 = [(24, MemLimitExceeded)]" by code_simp
  have m2: "memory_checks ?r2 = [(24, OK)]" by code_simp
  have "ret_status ?r1 = MemLimitExceeded \<and> length (compare_passes ?r1) = 1"
    using get_filter_array_memory_limit [of boundary_segment "[candidate_segment]" 2 "[]"
        "[1]" "[- 1]" 0 0 ?fail, THEN conjunct2, THEN conjunct1] m1
    by (simp add: ok_def)
  moreover have "ret_status ?r2 = OK"
    using get_filter_array_memory_limit [of boundary_segment "[candidate_segment]" 2 "[]"
        "[1]" "[- 1]" 0 0 "\<lambda>bytes. OK", THEN conjunct2, THEN conjunct2] m2
    by (simp add: ok_def)
  ultimately show ?thesis by simp
qed

section \<open>Null placement\<close>

lemma null_first_flag_nth:
  "k < length is_asc \<Longrightarrow> length is_null_first = length is_asc \<Longrightarrow>
   ChunksSorter_null_first_flag is_asc is_null_first ! k
     = (if is_asc ! k then (if is_null_first ! k then - 1 else 1)
        else (if is_null_first ! k then 1 else - 1))"
  by (simp add: ChunksSorter_null_first_flag_def)

lemma sort_order_flag_nth:
  "k < length is_asc \<Longrightarrow>
   ChunksSorter_sort_order_flag is_asc ! k = (if is_asc ! k then 1 else - 1)"
  by (simp add: ChunksSorter_sort_order_flag_def)

lemma column_compare_at_zero_sym:
  "hint \<noteq> 0 \<Longrightarrow> column_compare_at a i j b hint = 0 \<Longrightarrow> column_compare_at b j i a hint = 0"
  by (auto simp: column_compare_at_def split: option.splits if_splits)

lemma null_first_flag_nonzero:
  "k < length is_asc \<Longrightarrow> length is_null_first = length is_asc \<Longrightarrow>
   ChunksSorter_null_first_flag is_asc is_null_first ! k \<noteq> 0"
  by (simp add: null_first_flag_nth)

text \<open>
  C5, for rows that the earlier keys do not separate. Let the flags be derived from the
  order specification, let key \<open>k\<close> be null in row \<open>i\<close> of one segment and non-null in
  row \<open>j\<close> of another, and let the two rows compare equal on every earlier key (for the
  first key there is none). If key \<open>k\<close> is configured nulls-first, the null-keyed row
  compares strictly before the other row under \<open>compare_at\<close>, whichever way the rows are
  passed and whether the key is ascending or descending; if it is configured nulls-last,
  the null-keyed row compares strictly after.
\<close>

theorem nulls_first_orders_before_non_null:
  fixes seg other :: "('a::ord) DataSegment"
  assumes "length is_asc = length (order_by_columns seg)"
    and "length is_null_first = length is_asc"
    and "length (order_by_columns other) = length (order_by_columns seg)"
    and "k < length (order_by_columns seg)"
    and "i < length (order_by_columns seg ! k)" and "j < length (order_by_columns other ! k)"
    and "order_by_columns seg ! k ! i = None" and "order_by_columns other ! k ! j \<noteq> None"
    and "\<forall>k' < k. key_compare seg i other j (ChunksSorter_null_first_flag is_asc is_null_first) k' = 0"
  shows "(is_null_first ! k \<longrightarrow>
            compare_at seg i other j (ChunksSorter_sort_order_flag is_asc)
              (ChunksSorter_null_first_flag is_asc is_null_first) < 0
          \<and> 0 < compare_at other j seg i (ChunksSorter_sort_order_flag is_asc)
              (ChunksSorter_null_first_flag is_asc is_null_first))
       \<and> (\<not> is_null_first ! k \<longrightarrow>
            0 < compare_at seg i other j (ChunksSorter_sort_order_flag is_asc)
              (ChunksSorter_null_first_flag is_asc is_null_first)
          \<and> compare_at other j seg i (ChunksSorter_sort_order_flag is_asc)
              (ChunksSorter_null_first_flag is_asc is_null_first) < 0)"
proof -
  let ?sof = "ChunksSorter_sort_order_flag is_asc"
  let ?nff = "ChunksSorter_null_first_flag is_asc is_null_first"
  have k: "k < length is_asc" using assms(1,4) by simp
  have nff: "?nff ! k = (if is_asc ! k then (if is_null_first ! k then - 1 else 1)
        else (if is_null_first ! k then 1 else - 1))"
    using null_first_flag_nth [OF k assms(2)] .
  have sof: "?sof ! k = (if is_asc ! k then 1 else - 1)"
    using sort_order_flag_nth [OF k] .
  have left: "key_compare seg i other j ?nff k = ?nff ! k"
    using assms(7,8) by (auto simp: key_compare_def column_compare_at_def split: option.splits)
  have right: "key_compare other j seg i ?nff k = - ?nff ! k"
    using assms(7,8) by (auto simp: key_compare_def column_compare_at_def split: option.splits)
  have nz: "?nff ! k \<noteq> 0" unfolding nff by simp
  have swapped: "\<forall>k' < k. key_compare other j seg i ?nff k' = 0"
  proof (intro allI impI)
    fix k' assume lt: "k' < k"
    then have "k' < length is_asc" using k by simp
    then have "?nff ! k' \<noteq> 0" using assms(2) by (rule null_first_flag_nonzero)
    moreover have "key_compare seg i other j ?nff k' = 0" using assms(9) lt by simp
    ultimately show "key_compare other j seg i ?nff k' = 0"
      unfolding key_compare_def by (rule column_compare_at_zero_sym)
  qed
  have l: "compare_at seg i other j ?sof ?nff = ?nff ! k * ?sof ! k"
    unfolding compare_at_def
    using compare_at_from_first_differing [of 0 k seg i other j ?nff ?sof] assms(4,9) left nz
    by simp
  have r: "compare_at other j seg i ?sof ?nff = - ?nff ! k * ?sof ! k"
    unfolding compare_at_def
    using compare_at_from_first_differing [of 0 k other j seg i ?nff ?sof] assms(3,4) swapped right nz
    by simp
  show ?thesis
    unfolding l r nff sof by simp
qed

text \<open>
  An instance: rows 0 and 1 of \<open>null_key_segment\<close>, equal on the first key, with the
  second key descending and ascending, nulls-first and nulls-last.
\<close>

theorem nulls_first_orders_before_non_null_witness:
  "compare_at null_key_segment 0 null_key_segment 1 (ChunksSorter_sort_order_flag [True, False])
      (ChunksSorter_null_first_flag [True, False] [True, True]) < 0
   \<and> compare_at null_key_segment 0 null_key_segment 1 (ChunksSorter_sort_order_flag [True, True])
      (ChunksSorter_null_first_flag [True, True] [True, True]) < 0
   \<and> 0 < compare_at null_key_segment 0 null_key_segment 1 (ChunksSorter_sort_order_flag [True, False])
      (ChunksSorter_null_first_flag [True, False] [True, False])
   \<and> 0 < compare_at null_key_segment 0 null_key_segment 1 (ChunksSorter_sort_order_flag [True, True])
      (ChunksSorter_null_first_flag [True, True] [True, False])"
proof -
  have cols: "order_by_columns null_key_segment
                = [[Some 2, Some 2, Some 1], [None, Some 3, Some 3]]"
    by (simp add: null_key_segment_def DataSegment_new_def DataSegment_init_def
        DataSegment_empty_def slot_ref_def)
  have h: "length [True, a] = length (order_by_columns null_key_segment)"
    "length (order_by_columns null_key_segment) = length (order_by_columns null_key_segment)"
    "1 < length (order_by_columns null_key_segment)"
    "0 < length (order_by_columns null_key_segment ! 1)"
    "1 < length (order_by_columns null_key_segment ! 1)"
    "order_by_columns null_key_segment ! 1 ! 0 = None"
    "order_by_columns null_key_segment ! 1 ! 1 \<noteq> None" for a
    by (simp_all add: cols)
  have len: "length [True, n] = length [True, a]" for n a by simp
  have eq: "\<forall>k' < 1. key_compare null_key_segment 0 null_key_segment 1
                (ChunksSorter_null_first_flag [True, a] [True, n]) k' = 0" for a n
    by (simp add: key_compare_def column_compare_at_def cols)
  note T = nulls_first_orders_before_non_null [where seg = null_key_segment
      and other = null_key_segment and k = 1 and i = 0 and j = 1,
      OF h(1) len h(2) h(3) h(4) h(5) h(6) h(7) eq]
  show ?thesis
    using T [of False True] T [of True True] T [of False False] T [of True False]
    by simp
qed

text \<open>
  C5 as stated, for every pair of rows, fails: rows 0 and 2 of \<open>null_key_segment\<close>
  differ on the first key, which decides. Row 0 is null on the second key, configured
  nulls-first, and row 2 is not, yet row 0 compares strictly after row 2.
\<close>

theorem nulls_first_later_key_counterexample:
  "[True, True] ! 1
   \<and> order_by_columns null_key_segment ! 1 ! 0 = None
   \<and> order_by_columns null_key_segment ! 1 ! 2 \<noteq> None
   \<and> 0 < compare_at null_key_segment 0 null_key_segment 2 (ChunksSorter_sort_order_flag [True, True])
           (ChunksSorter_null_first_flag [True, True] [True, True])
   \<and> compare_at null_key_segment 2 null_key_segment 0 (ChunksSorter_sort_order_flag [True, True])
           (ChunksSorter_null_first_flag [True, True] [True, True]) < 0"
  by code_simp


section \<open>Properties of the merger\<close>

declare refill.simps [simp del]

lemma wf_batch_col: "wf_batch arity b \<Longrightarrow> k < arity \<Longrightarrow> length (b ! k) = num_rows b"
  by (auto simp: wf_batch_def list_all_length)

lemma wf_batch_arity: "wf_batch arity b \<Longrightarrow> 0 < num_rows b \<Longrightarrow> 0 < arity"
  by (cases b) (auto simp: wf_batch_def num_rows_def)

lemma select_min_single:
  "select_min [c] sof nff = (if cur_exhausted c then None else Some 0)"
  by (simp add: select_min_def)

lemma chunk_DataSegment_new [simp]: "chunk (DataSegment_new e b) = b"
  by (simp add: DataSegment_new_def DataSegment_init_def)

lemma refill_Nil:
  "cur_source c = [] \<Longrightarrow> refill e c = c\<lparr>cur_source := [], cur_exhausted := True\<rparr>"
  by (subst refill.simps) (simp add: pull_next_def)

lemma refill_Cons:
  "cur_source c = b # rest \<Longrightarrow>
   refill e c =
     (if 0 < num_rows b
      then c\<lparr>cur_segment := DataSegment_new e b, cur_pos := 0, cur_source := rest\<rparr>
      else refill e (c\<lparr>cur_segment := DataSegment_new e b, cur_pos := 0, cur_source := rest\<rparr>))"
  by (subst refill.simps) (simp add: pull_next_def Let_def)

lemma all_rows_of_Nil: "all_rows_of arity [] = replicate arity []"
  by (simp add: all_rows_of_def map_replicate_const)

lemma all_rows_of_empty_batch:
  assumes "wf_batch arity b" and "num_rows b = 0"
  shows "all_rows_of arity (b # bs) = all_rows_of arity bs"
  using assms wf_batch_col [OF assms(1)] by (simp add: all_rows_of_def)

lemma refill_ok:
  assumes "list_all (wf_batch arity) (cur_source c)" and "\<not> cur_exhausted c"
  shows "cursor_ok arity (refill e c)
    \<and> pending arity (refill e c) = all_rows_of arity (cur_source c)
    \<and> remaining (refill e c) = sum_list (map num_rows (cur_source c))"
  using assms
proof (induction "cur_source c" arbitrary: c)
  case Nil
  then have src: "cur_source c = []" by simp
  show ?case
    unfolding refill_Nil [OF src] src
    by (simp add: cursor_ok_def pending_def remaining_def all_rows_of_Nil)
next
  case (Cons b rest)
  then have src: "cur_source c = b # rest" by simp
  let ?c1 = "c\<lparr>cur_segment := DataSegment_new e b, cur_pos := 0, cur_source := rest\<rparr>"
  have wb: "wf_batch arity b" and wr: "list_all (wf_batch arity) rest"
    using Cons.prems(1) src by simp_all
  show ?case
  proof (cases "0 < num_rows b")
    case True
    have r: "refill e c = ?c1" using refill_Cons [OF src, of e] True by simp
    show ?thesis
      unfolding r src using wb wr True Cons.prems(2)
      by (simp add: cursor_ok_def pending_def remaining_def all_rows_of_def)
  next
    case False
    have r: "refill e c = refill e ?c1" using refill_Cons [OF src, of e] False by simp
    have "cursor_ok arity (refill e ?c1)
      \<and> pending arity (refill e ?c1) = all_rows_of arity (cur_source ?c1)
      \<and> remaining (refill e ?c1) = sum_list (map num_rows (cur_source ?c1))"
      using Cons.hyps(1) [of ?c1] wr Cons.prems(2) by simp
    then show ?thesis
      unfolding r src using all_rows_of_empty_batch [OF wb, of rest] False by simp
  qed
qed

lemmas refill_ok1 = refill_ok [THEN conjunct1]
lemmas refill_ok2 = refill_ok [THEN conjunct2, THEN conjunct1]
lemmas refill_ok3 = refill_ok [THEN conjunct2, THEN conjunct2]

lemma advance_ok:
  assumes "cursor_ok arity c" and "\<not> cur_exhausted c"
  shows "cursor_ok arity (advance e c)"
    and "pending arity c
           = map (\<lambda>k. (chunk (cur_segment c) ! k ! cur_pos c) # pending arity (advance e c) ! k)
               [0..<arity]"
    and "remaining c = Suc (remaining (advance e c))"
proof -
  let ?b = "chunk (cur_segment c)"
  let ?c1 = "c\<lparr>cur_pos := cur_pos c + 1\<rparr>"
  have gb: "wf_batch arity ?b" and pos: "cur_pos c < num_rows ?b"
    and src: "list_all (wf_batch arity) (cur_source c)"
    using assms by (auto simp: cursor_ok_def)
  have col: "k < arity \<Longrightarrow> length (?b ! k) = num_rows ?b" for k
    using gb by (rule wf_batch_col)
  show "cursor_ok arity (advance e c)"
  proof (cases "cur_pos c + 1 < num_rows ?b")
    case True
    then show ?thesis using assms by (simp add: advance_def cursor_ok_def)
  next
    case False
    then show ?thesis
      using refill_ok1 [of arity ?c1 e] src assms(2) by (simp add: advance_def)
  qed
  show "pending arity c
           = map (\<lambda>k. (?b ! k ! cur_pos c) # pending arity (advance e c) ! k) [0..<arity]"
  proof (cases "cur_pos c + 1 < num_rows ?b")
    case True
    then show ?thesis
      using assms(2) pos col
      by (auto simp: advance_def pending_def Cons_nth_drop_Suc)
  next
    case False
    then have last: "Suc (cur_pos c) = num_rows ?b" using pos by simp
    have "pending arity (advance e c) = all_rows_of arity (cur_source c)"
      using refill_ok2 [of arity ?c1 e] src False assms(2) by (simp add: advance_def)
    moreover have "k < arity \<Longrightarrow> drop (cur_pos c) (?b ! k) = [?b ! k ! cur_pos c]" for k
      using col [of k] last pos
      by (metis Cons_nth_drop_Suc drop_all order_refl)
    ultimately show ?thesis
      using assms(2) by (auto simp: pending_def all_rows_of_def)
  qed
  show "remaining c = Suc (remaining (advance e c))"
  proof (cases "cur_pos c + 1 < num_rows ?b")
    case True
    then show ?thesis
      using assms(2) pos by (auto simp: advance_def remaining_def)
  next
    case False
    then show ?thesis
      using refill_ok3 [of arity ?c1 e] src assms(2) pos
      by (auto simp: advance_def remaining_def)
  qed
qed

lemma append_row_columns:
  assumes "out = [] \<or> length out = arity" and "length src = arity" and "0 < arity"
  shows "append_row out src row
           = map (\<lambda>k. columns_of arity out ! k @ [src ! k ! row]) [0..<arity]"
proof (cases "out = []")
  case True
  then show ?thesis
    using assms(2) by (auto simp: append_row_def columns_of_def intro: nth_equalityI)
next
  case False
  then show ?thesis
    using assms by (auto simp: append_row_def columns_of_def intro!: nth_equalityI)
qed

lemma pending_length:
  "cursor_ok arity c \<Longrightarrow> k < arity \<Longrightarrow> length (pending arity c ! k) = remaining c"
proof -
  assume ok: "cursor_ok arity c" and k: "k < arity"
  have "length (concat (map (\<lambda>batch. batch ! k) bs)) = sum_list (map num_rows bs)"
    if "list_all (wf_batch arity) bs" for bs
    using that k by (induction bs) (auto simp: wf_batch_col)
  from this [of "cur_source c"]
  have "length (concat (map (\<lambda>batch. batch ! k) (cur_source c)))
          = sum_list (map num_rows (cur_source c))"
    using ok by (simp add: cursor_ok_def)
  then show ?thesis
    using ok k by (auto simp: pending_def remaining_def cursor_ok_def wf_batch_col)
qed

lemma remaining_zero: "cursor_ok arity c \<Longrightarrow> remaining c = 0 \<longleftrightarrow> cur_exhausted c"
  by (auto simp: remaining_def cursor_ok_def)

lemma length_pending [simp]: "length (pending arity c) = arity"
  by (simp add: pending_def)

lemma merge_rows_single:
  assumes "merger_cursors m = [c]" and "cursor_ok arity c"
    and "out = [] \<or> length out = arity" and "0 < arity"
  shows "\<exists>c' out'. merge_rows capacity m out = (m\<lparr>merger_cursors := [c']\<rparr>, out')
      \<and> cursor_ok arity c'
      \<and> (out' = [] \<or> length out' = arity)
      \<and> columns_of arity out'
           = map (\<lambda>k. columns_of arity out ! k @ take capacity (pending arity c ! k)) [0..<arity]
      \<and> pending arity c' = map (\<lambda>k. drop capacity (pending arity c ! k)) [0..<arity]
      \<and> remaining c' = remaining c - capacity"
  using assms
proof (induction capacity arbitrary: m c out)
  case 0
  have "columns_of arity out = map (\<lambda>k. columns_of arity out ! k) [0..<arity]"
    using "0.prems"(3) by (auto simp: columns_of_def intro!: nth_equalityI)
  moreover have "pending arity c = map (\<lambda>k. pending arity c ! k) [0..<arity]"
    by (auto intro!: nth_equalityI)
  moreover have "m\<lparr>merger_cursors := [c]\<rparr> = m"
    using "0.prems"(1) by simp
  ultimately show ?case
    using "0.prems" by (intro exI [of _ c] exI [of _ out]) simp
next
  case (Suc capacity)
  show ?case
  proof (cases "cur_exhausted c")
    case True
    have p: "pending arity c = replicate arity []"
      using True by (simp add: pending_def)
    have e1: "map (\<lambda>k. columns_of arity out ! k @ take (Suc capacity) (replicate arity [] ! k))
                [0..<arity] = columns_of arity out"
      using Suc.prems(3) by (auto simp: columns_of_def intro!: nth_equalityI)
    have e2: "map (\<lambda>k. drop (Suc capacity) (replicate arity [] ! k)) [0..<arity]
                = replicate arity ([] :: 'a option list)"
      by (auto intro!: nth_equalityI)
    have e3: "m\<lparr>merger_cursors := [c]\<rparr> = m"
      using Suc.prems(1) by simp
    have e4: "remaining c = 0" using True by (simp add: remaining_def)
    have mr: "merge_rows (Suc capacity) m out = (m\<lparr>merger_cursors := [c]\<rparr>, out)"
      using Suc.prems(1) True e3 by (simp add: select_min_single)
    show ?thesis
      unfolding mr p e1 e2 using Suc.prems(2,3) e4 p
      by (intro exI [of _ c] exI [of _ out]) simp
  next
    case False
    let ?e = "merger_sort_exprs m"
    let ?b = "chunk (cur_segment c)"
    let ?out1 = "append_row out ?b (cur_pos c)"
    let ?c1 = "advance ?e c"
    let ?m1 = "m\<lparr>merger_cursors := [?c1]\<rparr>"
    have gb: "wf_batch arity ?b"
      using Suc.prems(2) False by (simp add: cursor_ok_def)
    then have lb: "length ?b = arity" by (simp add: wf_batch_def)
    have out1: "?out1 = map (\<lambda>k. columns_of arity out ! k @ [?b ! k ! cur_pos c]) [0..<arity]"
      using append_row_columns [OF Suc.prems(3) lb Suc.prems(4)] .
    have out1_len: "?out1 = [] \<or> length ?out1 = arity"
      unfolding out1 by simp
    have out1_cols: "columns_of arity ?out1 = ?out1"
      using Suc.prems(4) unfolding out1 by (simp add: columns_of_def)
    note adv = advance_ok [OF Suc.prems(2) False, of ?e]
    have step: "merge_rows (Suc capacity) m out = merge_rows capacity ?m1 ?out1"
      using Suc.prems(1) False by (simp add: select_min_single Let_def)
    obtain c' out' where
      rec: "merge_rows capacity ?m1 ?out1 = (?m1\<lparr>merger_cursors := [c']\<rparr>, out')"
      and ok': "cursor_ok arity c'" and len': "out' = [] \<or> length out' = arity"
      and cols': "columns_of arity out'
           = map (\<lambda>k. columns_of arity ?out1 ! k @ take capacity (pending arity ?c1 ! k)) [0..<arity]"
      and pend': "pending arity c' = map (\<lambda>k. drop capacity (pending arity ?c1 ! k)) [0..<arity]"
      and rem': "remaining c' = remaining ?c1 - capacity"
      using Suc.IH [of ?m1 ?c1 ?out1] adv(1) out1_len Suc.prems(4) by auto
    have m1: "?m1\<lparr>merger_cursors := [c']\<rparr> = m\<lparr>merger_cursors := [c']\<rparr>" by simp
    have pc: "k < arity \<Longrightarrow> pending arity c ! k = (?b ! k ! cur_pos c) # pending arity ?c1 ! k" for k
      by (subst adv(2)) simp
    have "columns_of arity out'
           = map (\<lambda>k. columns_of arity out ! k @ take (Suc capacity) (pending arity c ! k)) [0..<arity]"
      unfolding cols' out1_cols using pc by (subst (1) out1) (auto simp: out1)
    moreover have "pending arity c' = map (\<lambda>k. drop (Suc capacity) (pending arity c ! k)) [0..<arity]"
      unfolding pend' using pc by auto
    moreover have "remaining c' = remaining c - Suc capacity"
      using rem' adv(3) by simp
    ultimately show ?thesis
      unfolding step rec m1 using ok' len' by blast
  qed
qed

lemma get_next_exhausted:
  "merger_cursors m = [c] \<Longrightarrow> cur_exhausted c \<Longrightarrow>
   SortedChunksMerger_get_next m = ((OK, None, True), m)"
  by (simp add: SortedChunksMerger_get_next_def)

lemma get_next_single:
  assumes "merger_cursors m = [c]" and "cursor_ok arity c" and "\<not> cur_exhausted c"
    and "0 < merger_batch_size m"
  shows "\<exists>c' page. SortedChunksMerger_get_next m = ((OK, Some page, False), m\<lparr>merger_cursors := [c']\<rparr>)
      \<and> cursor_ok arity c'
      \<and> page = map (\<lambda>k. take (merger_batch_size m) (pending arity c ! k)) [0..<arity]
      \<and> pending arity c' = map (\<lambda>k. drop (merger_batch_size m) (pending arity c ! k)) [0..<arity]
      \<and> remaining c' < remaining c
      \<and> wf_batch arity page \<and> 0 < num_rows page \<and> num_rows page \<le> merger_batch_size m"
proof -
  have "wf_batch arity (chunk (cur_segment c))" "0 < num_rows (chunk (cur_segment c))"
    using assms(2,3) by (auto simp: cursor_ok_def)
  then have ar: "0 < arity" by (rule wf_batch_arity)
  obtain c' out' where
    mr: "merge_rows (merger_batch_size m) m [] = (m\<lparr>merger_cursors := [c']\<rparr>, out')"
    and ok': "cursor_ok arity c'"
    and len': "out' = [] \<or> length out' = arity"
    and cols': "columns_of arity out'
           = map (\<lambda>k. columns_of arity [] ! k @ take (merger_batch_size m) (pending arity c ! k))
               [0..<arity]"
    and pend': "pending arity c'
           = map (\<lambda>k. drop (merger_batch_size m) (pending arity c ! k)) [0..<arity]"
    and rem': "remaining c' = remaining c - merger_batch_size m"
    using merge_rows_single [OF assms(1,2) _ ar, of "[]" "merger_batch_size m"] by auto
  have pos: "0 < remaining c"
    using remaining_zero [OF assms(2)] assms(3) by simp
  have cols: "columns_of arity out'
           = map (\<lambda>k. take (merger_batch_size m) (pending arity c ! k)) [0..<arity]"
    unfolding cols' by (simp add: columns_of_def cong: map_cong)
  have "columns_of arity out' ! 0 \<noteq> []"
    unfolding cols using ar pos assms(4) pending_length [OF assms(2) ar] by auto
  then have "out' \<noteq> []"
    using ar by (auto simp: columns_of_def)
  then have page: "out' = map (\<lambda>k. take (merger_batch_size m) (pending arity c ! k)) [0..<arity]"
    using cols by (simp add: columns_of_def)
  have rows: "num_rows out' = min (merger_batch_size m) (remaining c)"
    unfolding page using ar pending_length [OF assms(2) ar]
    by (simp add: num_rows_def upt_conv_Cons)
  have wf: "wf_batch arity out'"
    unfolding wf_batch_def rows unfolding page
    using pending_length [OF assms(2)] by (auto simp: list_all_length min.commute)
  have "remaining c' < remaining c"
    using rem' pos assms(4) by simp
  then show ?thesis
    using assms(1,3,4) mr ok' page pend' wf rows pos
    by (intro exI [of _ c'] exI [of _ out']) (simp add: SortedChunksMerger_get_next_def)
qed

lemma get_all_pages_single:
  assumes "merger_cursors m = [c]" and "cursor_ok arity c" and "0 < merger_batch_size m"
    and "remaining c < fuel"
  shows "\<exists>pages. get_all_pages fuel m = Some pages
      \<and> all_rows_of arity pages = pending arity c
      \<and> list_all (\<lambda>page. wf_batch arity page \<and> 0 < num_rows page
                     \<and> num_rows page \<le> merger_batch_size m) pages"
  using assms
proof (induction fuel arbitrary: m c)
  case 0
  then show ?case by simp
next
  case (Suc fuel)
  show ?case
  proof (cases "cur_exhausted c")
    case True
    then show ?thesis
      using get_next_exhausted [OF Suc.prems(1) True]
      by (simp add: ok_def all_rows_of_Nil pending_def)
  next
    case False
    let ?good = "\<lambda>page. wf_batch arity page \<and> 0 < num_rows page
                     \<and> num_rows page \<le> merger_batch_size m"
    obtain c' page where
      gn: "SortedChunksMerger_get_next m = ((OK, Some page, False), m\<lparr>merger_cursors := [c']\<rparr>)"
      and ok': "cursor_ok arity c'"
      and page: "page = map (\<lambda>k. take (merger_batch_size m) (pending arity c ! k)) [0..<arity]"
      and pend': "pending arity c'
           = map (\<lambda>k. drop (merger_batch_size m) (pending arity c ! k)) [0..<arity]"
      and rem': "remaining c' < remaining c"
      and good: "?good page"
      using get_next_single [OF Suc.prems(1,2) False Suc.prems(3)] by blast
    obtain pages where
      rest: "get_all_pages fuel (m\<lparr>merger_cursors := [c']\<rparr>) = Some pages"
      and rows: "all_rows_of arity pages = pending arity c'"
      and goods: "list_all ?good pages"
      using Suc.IH [of "m\<lparr>merger_cursors := [c']\<rparr>" c'] ok' Suc.prems(3,4) rem' by auto
    have "all_rows_of arity (page # pages)
            = map (\<lambda>k. page ! k @ all_rows_of arity pages ! k) [0..<arity]"
      by (simp add: all_rows_of_def)
    also have "\<dots> = map (\<lambda>k. pending arity c ! k) [0..<arity]"
      unfolding rows pend' page by simp
    also have "\<dots> = pending arity c"
      by (auto intro!: nth_equalityI)
    finally show ?thesis
      using gn rest good goods by (simp add: ok_def)
  qed
qed

text \<open>
  C8. For a single source that supplies any finite sequence of batches of \<open>arity\<close>
  columns, with or without rows, a positive batch-size threshold and an order
  specification that is not empty and has one direction and one null placement per key,
  \<open>init\<close> succeeds and the calls of \<open>get_next\<close> deliver, before end-of-stream is
  signalled, batches whose rows are, column by column, the rows of the source's batches in
  the same order: no row is moved, lost or duplicated. Every delivered batch is well
  formed, has at least one row and at most the threshold. The number of calls is at most
  one more than the number of rows.
\<close>

theorem single_source_rows_unchanged:
  assumes "list_all (wf_batch arity) batches" and "0 < batch_size" and "sort_exprs \<noteq> []"
    and "length is_asc = length sort_exprs" and "length is_null_first = length sort_exprs"
  shows "\<exists>m pages.
      SortedChunksMerger_init [batches] sort_exprs is_asc is_null_first batch_size = Inr m
      \<and> get_all_pages (Suc (sum_list (map num_rows batches))) m = Some pages
      \<and> all_rows_of arity pages = all_rows_of arity batches
      \<and> list_all (\<lambda>page. wf_batch arity page \<and> 0 < num_rows page
                     \<and> num_rows page \<le> batch_size) pages"
proof -
  let ?c0 = "\<lparr>cur_segment = DataSegment_empty, cur_pos = 0,
              cur_source = batches, cur_exhausted = False\<rparr>"
  let ?m = "\<lparr>merger_cursors = [refill sort_exprs ?c0],
             merger_sort_exprs = sort_exprs,
             merger_sort_order_flag = ChunksSorter_sort_order_flag is_asc,
             merger_null_first_flag = ChunksSorter_null_first_flag is_asc is_null_first,
             merger_batch_size = batch_size\<rparr>"
  have init: "SortedChunksMerger_init [batches] sort_exprs is_asc is_null_first batch_size = Inr ?m"
    using assms(3,4,5) by (simp add: SortedChunksMerger_init_def)
  have src: "list_all (wf_batch arity) (cur_source ?c0)" "\<not> cur_exhausted ?c0"
    using assms(1) by simp_all
  note r = refill_ok [OF src, of sort_exprs]
  obtain pages where
    "get_all_pages (Suc (sum_list (map num_rows batches))) ?m = Some pages"
    "all_rows_of arity pages = pending arity (refill sort_exprs ?c0)"
    "list_all (\<lambda>page. wf_batch arity page \<and> 0 < num_rows page
                     \<and> num_rows page \<le> batch_size) pages"
    using get_all_pages_single [of ?m "refill sort_exprs ?c0" arity
        "Suc (sum_list (map num_rows batches))"] r assms(2)
    by auto
  then show ?thesis
    using init r by simp
qed

text \<open>
  An instance: a single source that supplies the first three rows of the custkey column,
  a batch without rows, and the other rows, with a threshold of four rows.
\<close>

theorem single_source_rows_unchanged_witness:
  "\<exists>m pages.
      SortedChunksMerger_init [[[int_column [71, 70, 69]], [[]], [int_column [55, 49]]]]
        [slot_ref 0] [False] [True] 4 = Inr m
      \<and> get_all_pages 6 m = Some pages
      \<and> all_rows_of 1 pages = [int_column [71, 70, 69, 55, 49]]
      \<and> list_all (\<lambda>page. wf_batch 1 page \<and> 0 < num_rows page \<and> num_rows page \<le> 4) pages"
proof -
  let ?batches = "[[int_column [71, 70, 69]], [[]], [int_column [55, 49]]]"
  have g: "list_all (wf_batch 1) ?batches"
    by (simp add: wf_batch_def num_rows_def int_column_def)
  have b: "0 < (4 :: nat)" by simp
  have e: "[slot_ref 0 :: Datum Chunk \<Rightarrow> Datum Column] \<noteq> []" by simp
  have l: "length [False] = length [slot_ref 0 :: Datum Chunk \<Rightarrow> Datum Column]"
    "length [True] = length [slot_ref 0 :: Datum Chunk \<Rightarrow> Datum Column]" by simp_all
  have n: "Suc (sum_list (map num_rows ?batches)) = 6"
    by (simp add: num_rows_def int_column_def)
  have a: "all_rows_of 1 ?batches = [int_column [71, 70, 69, 55, 49]]"
    by (simp add: all_rows_of_def int_column_def)
  show ?thesis
    using single_source_rows_unchanged [OF g b e l, unfolded n a] .
qed

text \<open>
  C7, as the fixture has it. The three fixture batches have 9, 5 and 2 rows. Merging them
  yields, on the first \<open>get_next\<close>, one batch of 16 rows that is not end-of-stream and
  whose custkey column is 71, 70, 69, 54, 4, 56, 55, 49, 41, 16, 52, 58, 24, 12, 2, 6; the
  next \<open>get_next\<close> signals end-of-stream without a batch.
\<close>

theorem three_suppliers_fixture_merge:
  "map num_rows [chunk_1, chunk_2, chunk_3] = [9, 5, 2]
   \<and> (case three_suppliers of
         Inl e \<Rightarrow> False
       | Inr m \<Rightarrow>
           (case SortedChunksMerger_get_next m of
              ((st, page, eos), m1) \<Rightarrow>
                st = OK \<and> \<not> eos
                \<and> map_option num_rows page = Some 16
                \<and> map_option (\<lambda>p. p ! 0) page
                    = Some (int_column [71, 70, 69, 54, 4, 56, 55, 49, 41, 16, 52, 58, 24, 12, 2, 6])
                \<and> fst (SortedChunksMerger_get_next m1) = (OK, None, True)))"
  by code_simp

text \<open>
  C7 as stated fails in its description of the fixture: the batches do not have 14, 5 and
  2 rows; the first one has 9 rows.
\<close>

theorem three_suppliers_fixture_rows_counterexample:
  "map num_rows [chunk_1, chunk_2, chunk_3] \<noteq> [14, 5, 2]
   \<and> num_rows chunk_1 = 9"
  by code_simp


end
